theory Spec2Isabelle
  imports Complex_Main "HOL-Library.Sublist"
begin

section \<open>Python values and exceptions\<close>

text \<open>
  The pool of \<^verbatim>\<open>thread_pool.py\<close> moves arbitrary Python objects through its queues: job
  triples, but also whatever a job returns. The values below are the ones the code inspects
  (\<^verbatim>\<open>len(job)\<close>, \<^verbatim>\<open>job[0]\<close>, \<^verbatim>\<open>*job[1]\<close>, \<^verbatim>\<open>**job[2]\<close>, \<^verbatim>\<open>len(qsize())\<close>). A callable is
  opaque and only carries a name. A dict is the list of its items, in which no key occurs
  twice.
\<close>

datatype pyval =
    PNone
  | PInt int
  | PStr string
  | PFun string
  | PTuple "pyval list"
  | PList "pyval list"
  | PDict "(pyval \<times> pyval) list"

datatype error =
    Full
  | Empty
  | ValueError
  | TypeError
  | KeyError
  | IndexError
  | AttributeError
  | JobFailure string

definition bind_err :: "error + 'a \<Rightarrow> ('a \<Rightarrow> error + 'b) \<Rightarrow> error + 'b" where
  "bind_err r f = (case r of Inl e \<Rightarrow> Inl e | Inr x \<Rightarrow> f x)"

text \<open>\<^verbatim>\<open>len(v)\<close>: defined on strings, tuples, lists and dicts, a \<^verbatim>\<open>TypeError\<close> otherwise.\<close>

fun py_len :: "pyval \<Rightarrow> error + nat" where
  "py_len (PStr s) = Inr (length s)"
| "py_len (PTuple xs) = Inr (length xs)"
| "py_len (PList xs) = Inr (length xs)"
| "py_len (PDict kvs) = Inr (length kvs)"
| "py_len PNone = Inl TypeError"
| "py_len (PInt n) = Inl TypeError"
| "py_len (PFun f) = Inl TypeError"

text \<open>\<^verbatim>\<open>v[i]\<close> for the literal indices 0, 1 and 2 the code uses.\<close>

fun py_getitem :: "pyval \<Rightarrow> nat \<Rightarrow> error + pyval" where
  "py_getitem (PStr s) i = (if i < length s then Inr (PStr [s ! i]) else Inl IndexError)"
| "py_getitem (PTuple xs) i = (if i < length xs then Inr (xs ! i) else Inl IndexError)"
| "py_getitem (PList xs) i = (if i < length xs then Inr (xs ! i) else Inl IndexError)"
| "py_getitem (PDict kvs) i =
     (case map_of kvs (PInt (int i)) of None \<Rightarrow> Inl KeyError | Some v \<Rightarrow> Inr v)"
| "py_getitem PNone i = Inl TypeError"
| "py_getitem (PInt n) i = Inl TypeError"
| "py_getitem (PFun f) i = Inl TypeError"

text \<open>\<^verbatim>\<open>*v\<close> in a call: any iterable is spread into positional arguments.\<close>

fun py_star :: "pyval \<Rightarrow> error + pyval list" where
  "py_star (PStr s) = Inr (map (\<lambda>c. PStr [c]) s)"
| "py_star (PTuple xs) = Inr xs"
| "py_star (PList xs) = Inr xs"
| "py_star (PDict kvs) = Inr (map fst kvs)"
| "py_star PNone = Inl TypeError"
| "py_star (PInt n) = Inl TypeError"
| "py_star (PFun f) = Inl TypeError"

fun is_str :: "pyval \<Rightarrow> bool" where
  "is_str (PStr s) = True"
| "is_str _ = False"

text \<open>\<^verbatim>\<open>**v\<close> in a call: a mapping whose keys are all strings.\<close>

fun py_starstar :: "pyval \<Rightarrow> error + (pyval \<times> pyval) list" where
  "py_starstar (PDict kvs) = (if list_all (\<lambda>kv. is_str (fst kv)) kvs then Inr kvs else Inl TypeError)"
| "py_starstar _ = Inl TypeError"

section \<open>The standard library's bounded queue\<close>

text \<open>
  \<^verbatim>\<open>Queue.Queue\<close> of the Python 2 standard library, as far as the pool uses it: the capacity
  \<^verbatim>\<open>maxsize\<close> (a queue with \<^verbatim>\<open>maxsize <= 0\<close> is unbounded), the stored items in FIFO order
  and the counter \<^verbatim>\<open>unfinished_tasks\<close>. Every method runs under the queue's mutex, so it is
  one atomic step. Time is not modelled: a \<^verbatim>\<open>put\<close> or \<^verbatim>\<open>get\<close> with a timeout is modelled by its
  outcome on the queue as the call finds it when it stops waiting, which is \<^verbatim>\<open>Full\<close>
  (\<^verbatim>\<open>Empty\<close>) exactly when the queue is still full (empty) at that moment. The timeout is
  passed as the code passes it and is taken to be a non-negative number.
\<close>

record py_queue =
  maxsize :: int
  queue_items :: "pyval list"
  unfinished_tasks :: int

definition Queue :: "int \<Rightarrow> py_queue" where
  "Queue n = \<lparr>maxsize = n, queue_items = [], unfinished_tasks = 0\<rparr>"

definition qsize :: "py_queue \<Rightarrow> int" where
  "qsize q = int (length (queue_items q))"

definition put :: "py_queue \<Rightarrow> pyval \<Rightarrow> rat \<Rightarrow> error + py_queue" where
  "put q item timeout =
     (if 0 < maxsize q \<and> qsize q = maxsize q then Inl Full
      else Inr (q\<lparr>queue_items := queue_items q @ [item],
                  unfinished_tasks := unfinished_tasks q + 1\<rparr>))"

definition get :: "py_queue \<Rightarrow> rat \<Rightarrow> error + pyval \<times> py_queue" where
  "get q timeout =
     (case queue_items q of
        [] \<Rightarrow> Inl Empty
      | item # rest \<Rightarrow> Inr (item, q\<lparr>queue_items := rest\<rparr>))"

definition task_done :: "py_queue \<Rightarrow> error + py_queue" where
  "task_done q =
     (let unfinished = unfinished_tasks q - 1
      in if unfinished < 0 then Inl ValueError
         else Inr (q\<lparr>unfinished_tasks := unfinished\<rparr>))"

text \<open>\<^verbatim>\<open>join()\<close> returns once \<^verbatim>\<open>unfinished_tasks\<close> is zero and waits as long as it is not.\<close>

definition join_returns :: "py_queue \<Rightarrow> bool" where
  "join_returns q = (unfinished_tasks q = 0)"

section \<open>The pool and the object store\<close>

text \<open>
  Pools and queues are objects with identity: \<^verbatim>\<open>forward\<close> makes two pools hold the same
  queue. The store maps addresses to objects; a new object takes the next free address.
  \<^verbatim>\<open>_source\<close>, \<^verbatim>\<open>_queue_out\<close>, \<^verbatim>\<open>_start_time\<close> and \<^verbatim>\<open>_end_time\<close> are \<open>None\<close> while Python's
  \<^verbatim>\<open>None\<close> or, for the two timestamps, while the attribute does not exist yet.
\<close>

datatype thread = WorkerThread | ConsumerThread

datatype source_arg =
    NoSource
  | IterSource "pyval list"
  | QueueSource nat
  | PoolSource nat

record thread_pool =
  pool_size :: int
  pool :: "thread list"
  queue :: nat
  queue_capacity :: int
  queue_timeout :: rat
  source :: "pyval list option"
  queue_out :: "nat option"
  start_time :: "nat option"
  end_time :: "nat option"

record system =
  queues :: "nat \<Rightarrow> py_queue"
  next_queue :: nat
  pools :: "nat \<Rightarrow> thread_pool"
  next_pool :: nat

definition new_Queue :: "system \<Rightarrow> int \<Rightarrow> nat \<times> system" where
  "new_Queue st n =
     (next_queue st,
      st\<lparr>queues := (queues st)(next_queue st := Queue n), next_queue := Suc (next_queue st)\<rparr>)"

definition set_pool :: "system \<Rightarrow> nat \<Rightarrow> thread_pool \<Rightarrow> system" where
  "set_pool st p v = st\<lparr>pools := (pools st)(p := v)\<rparr>"

definition set_queue :: "system \<Rightarrow> nat \<Rightarrow> py_queue \<Rightarrow> system" where
  "set_queue st q v = st\<lparr>queues := (queues st)(q := v)\<rparr>"

text \<open>
  \<^verbatim>\<open>forward\<close> and \<^verbatim>\<open>set_source\<close> call each other. Both return \<^verbatim>\<open>self\<close> or nothing; \<^verbatim>\<open>forward\<close>
  keeps its return value here because \<^verbatim>\<open>a >> b >> c\<close> uses it.
\<close>

function forward :: "system \<Rightarrow> nat \<Rightarrow> nat \<Rightarrow> nat \<times> system"
  and set_source :: "system \<Rightarrow> nat \<Rightarrow> source_arg \<Rightarrow> system" where
  "forward st self other =
     (let (q, st1) = new_Queue st (queue_capacity (pools st self));
          st2 = set_pool st1 self ((pools st1 self)\<lparr>queue_out := Some q\<rparr>)
      in (self, set_source st2 other (QueueSource q)))"
| "set_source st self (QueueSource q) = set_pool st self ((pools st self)\<lparr>queue := q\<rparr>)"
| "set_source st self (PoolSource s) = snd (forward st s self)"
| "set_source st self (IterSource xs) = set_pool st self ((pools st self)\<lparr>source := Some xs\<rparr>)"
| "set_source st self NoSource = set_pool st self ((pools st self)\<lparr>source := None\<rparr>)"
  by pat_completeness auto
termination
  by (relation "measure (\<lambda>x. case x of Inl _ \<Rightarrow> 1
        | Inr (_, _, s) \<Rightarrow> (case s of PoolSource _ \<Rightarrow> 2 | _ \<Rightarrow> 0))") auto

definition rshift :: "system \<Rightarrow> nat \<Rightarrow> nat \<Rightarrow> nat \<times> system" where
  "rshift st self other = forward st self other"

text \<open>\<^verbatim>\<open>ThreadPool(pool_size, source, queue_capacity, queue_timeout)\<close>: the constructor.\<close>

definition ThreadPool :: "system \<Rightarrow> int \<Rightarrow> source_arg \<Rightarrow> int \<Rightarrow> rat \<Rightarrow> nat \<times> system" where
  "ThreadPool st psize src capacity timeout =
     (let self = next_pool st;
          (q, st1) = new_Queue st capacity;
          st2 = (set_pool st1 self
                   \<lparr>pool_size = psize, pool = [], queue = q, queue_capacity = capacity,
                    queue_timeout = timeout, source = None, queue_out = None,
                    start_time = None, end_time = None\<rparr>)\<lparr>next_pool := Suc self\<rparr>
      in (self, set_source st2 self src))"

definition add :: "system \<Rightarrow> nat \<Rightarrow> pyval \<Rightarrow> pyval list \<Rightarrow> (pyval \<times> pyval) list \<Rightarrow> error + system" where
  "add st self callback args kwargs =
     (let q = queue (pools st self)
      in bind_err (put (queues st q) (PTuple [callback, PTuple args, PDict kwargs])
                     (queue_timeout (pools st self)))
           (\<lambda>q'. Inr (set_queue st q q')))"

text \<open>\<^verbatim>\<open>len(self._pool) + len(self._queue.qsize())\<close>: the second \<^verbatim>\<open>len\<close> is applied to an integer.\<close>

definition jobs_count :: "system \<Rightarrow> nat \<Rightarrow> error + int" where
  "jobs_count st self =
     bind_err (py_len (PInt (qsize (queues st (queue (pools st self)))))) (\<lambda>m.
       Inr (int (length (pool (pools st self))) + int m))"

datatype outcome = Returned system | Raised error system | Blocked system

definition start :: "system \<Rightarrow> nat \<Rightarrow> nat \<Rightarrow> system" where
  "start st self now = set_pool st self ((pools st self)\<lparr>start_time := Some now\<rparr>)"

text \<open>
  \<^verbatim>\<open>finish\<close> assigns \<^verbatim>\<open>_end_time\<close> and then formats \<^verbatim>\<open>self._end_time - self._start_time\<close> for the
  log line; reading \<^verbatim>\<open>_start_time\<close> before \<^verbatim>\<open>start\<close> ever assigned it is an \<^verbatim>\<open>AttributeError\<close>.
\<close>

definition finish :: "system \<Rightarrow> nat \<Rightarrow> nat \<Rightarrow> outcome" where
  "finish st self now =
     (let st1 = set_pool st self ((pools st self)\<lparr>end_time := Some now\<rparr>)
      in case start_time (pools st1 self) of
           None \<Rightarrow> Raised AttributeError st1
         | Some t \<Rightarrow> Returned st1)"

definition wait :: "system \<Rightarrow> nat \<Rightarrow> nat \<Rightarrow> outcome" where
  "wait st self now =
     (if join_returns (queues st (queue (pools st self))) then finish st self now
      else Blocked st)"

definition build_pool :: "system \<Rightarrow> nat \<Rightarrow> system" where
  "build_pool st self =
     set_pool st self ((pools st self)\<lparr>pool := replicate (nat (pool_size (pools st self))) WorkerThread\<rparr>)"

definition run :: "system \<Rightarrow> nat \<Rightarrow> nat \<Rightarrow> system" where
  "run st self now =
     (let st1 = build_pool (start st self now) self
      in case source (pools st1 self) of
           None \<Rightarrow> st1
         | Some xs \<Rightarrow> set_pool st1 self ((pools st1 self)\<lparr>pool := pool (pools st1 self) @ [ConsumerThread]\<rparr>))"

section \<open>The threads\<close>

text \<open>
  A thread is a small machine: each step is one access to the shared objects (a queue
  method, or the job's call), so that any interleaving of the threads is a sequence of
  such steps. A step reports what it did as events. The job's call
  \<^verbatim>\<open>job[0](*job[1], **job[2])\<close> is the parameter \<open>run_job\<close>: it returns a value or raises, and
  does not touch the pools.
\<close>

datatype event =
    Dequeued pyval
  | Executed pyval
  | Forwarded pyval
  | TaskDone
  | Fed pyval
  | Slept

text \<open>
  \<^verbatim>\<open>_thread_run\<close>. \<open>AtGet\<close> is the head of the loop, \<open>Running job\<close> the inner \<^verbatim>\<open>try\<close> before the
  call, \<open>Forwarding result\<close> the \<^verbatim>\<open>put\<close> on \<^verbatim>\<open>_queue_out\<close>, \<open>Finally e\<close> the \<^verbatim>\<open>finally\<close> clause
  with the exception in flight, if any. \<open>Exited\<close>: the function returned after \<^verbatim>\<open>break\<close>.
  \<open>Died e\<close>: the exception \<open>e\<close> left the function.
\<close>

datatype worker =
    AtGet
  | Running pyval
  | Forwarding pyval
  | Finally "error option"
  | Exited
  | Died error

text \<open>\<^verbatim>\<open>except Empty: break\<close> around the whole loop body.\<close>

definition except_Empty :: "error \<Rightarrow> worker" where
  "except_Empty e = (if e = Empty then Exited else Died e)"

fun thread_run :: "(pyval \<Rightarrow> error + pyval) \<Rightarrow> nat \<Rightarrow> worker \<Rightarrow> system \<Rightarrow> event list \<times> worker \<times> system" where
  "thread_run run_job self AtGet st =
     (let q = queue (pools st self)
      in case get (queues st q) (queue_timeout (pools st self)) of
           Inl e \<Rightarrow> ([], except_Empty e, st)
         | Inr (job, q') \<Rightarrow> ([Dequeued job], Running job, set_queue st q q'))"
| "thread_run run_job self (Running job) st =
     (case run_job job of
        Inl e \<Rightarrow> ([Executed job], Finally (Some e), st)
      | Inr result \<Rightarrow>
          (case queue_out (pools st self) of
             None \<Rightarrow> ([Executed job], Finally None, st)
           | Some out \<Rightarrow> ([Executed job], Forwarding result, st)))"
| "thread_run run_job self (Forwarding result) st =
     (case queue_out (pools st self) of
        None \<Rightarrow> ([], Finally (Some AttributeError), st)
      | Some out \<Rightarrow>
          (case put (queues st out) result (queue_timeout (pools st self)) of
             Inl e \<Rightarrow> ([], Finally (Some e), st)
           | Inr out' \<Rightarrow> ([Forwarded result], Finally None, set_queue st out out')))"
| "thread_run run_job self (Finally pending) st =
     (let q = queue (pools st self)
      in case task_done (queues st q) of
           Inl e \<Rightarrow> ([TaskDone], except_Empty e, st)
         | Inr q' \<Rightarrow>
             ([TaskDone],
              (case pending of None \<Rightarrow> AtGet | Some e \<Rightarrow> except_Empty e),
              set_queue st q q'))"
| "thread_run run_job self Exited st = ([], Exited, st)"
| "thread_run run_job self (Died e) st = ([], Died e, st)"

text \<open>
  The call \<^verbatim>\<open>self.add(job[0], *job[1], **job[2])\<close> of \<^verbatim>\<open>_consume\<close>, up to the point where \<^verbatim>\<open>add\<close>'s
  body starts: the three subscripts, the two unpackings, and the binding to
  \<^verbatim>\<open>add(self, callback, *args, **kwargs)\<close>, which refuses a keyword named like one of its two
  named parameters.
\<close>

definition add_arguments :: "pyval \<Rightarrow> error + pyval \<times> pyval list \<times> (pyval \<times> pyval) list" where
  "add_arguments job =
     bind_err (py_getitem job 0) (\<lambda>callback.
     bind_err (py_getitem job 1) (\<lambda>a.
     bind_err (py_getitem job 2) (\<lambda>k.
     bind_err (py_star a) (\<lambda>args.
     bind_err (py_starstar k) (\<lambda>kwargs.
       if PStr ''self'' \<in> set (map fst kwargs) \<or> PStr ''callback'' \<in> set (map fst kwargs)
       then Inl TypeError
       else Inr (callback, args, kwargs))))))"

text \<open>
  \<^verbatim>\<open>_consume\<close>. \<open>NextItem items\<close> is the head of the \<^verbatim>\<open>for\<close> loop with the items the source has
  still to produce, \<open>Adding job rest\<close> the \<^verbatim>\<open>while True\<close> loop for \<open>job\<close>, \<open>Consumed\<close> the normal
  return, \<open>Failed e\<close> the exception \<open>e\<close> leaving the function.
\<close>

datatype consumer =
    NextItem "pyval list"
  | Adding pyval "pyval list"
  | Consumed
  | Failed error

fun consume :: "nat \<Rightarrow> consumer \<Rightarrow> system \<Rightarrow> event list \<times> consumer \<times> system" where
  "consume self (NextItem []) st = ([], Consumed, st)"
| "consume self (NextItem (job # rest)) st =
     (case py_len job of
        Inl e \<Rightarrow> ([], Failed e, st)
      | Inr n \<Rightarrow> if \<not> n = 3 then ([], Failed ValueError, st) else ([], Adding job rest, st))"
| "consume self (Adding job rest) st =
     (case add_arguments job of
        Inl e \<Rightarrow> ([], Failed e, st)
      | Inr (callback, args, kwargs) \<Rightarrow>
          (case add st self callback args kwargs of
             Inl e \<Rightarrow> if e = Full then ([Slept], Adding job rest, st) else ([], Failed e, st)
           | Inr st' \<Rightarrow> ([Fed job], NextItem rest, st')))"
| "consume self Consumed st = ([], Consumed, st)"
| "consume self (Failed e) st = ([], Failed e, st)"

text \<open>\<^verbatim>\<open>for job in self._source\<close>: where the consumer thread starts.\<close>

definition consume_start :: "system \<Rightarrow> nat \<Rightarrow> consumer" where
  "consume_start st self =
     (case source (pools st self) of None \<Rightarrow> Failed TypeError | Some items \<Rightarrow> NextItem items)"

text \<open>
  One thread against all the others: \<open>Own\<close> is a step of the thread itself, \<open>Others st\<close>
  stands for any number of steps of other threads, which leave the shared objects as \<open>st\<close>.
\<close>

datatype turn = Own | Others system

fun worker_run :: "(pyval \<Rightarrow> error + pyval) \<Rightarrow> nat \<Rightarrow> turn list \<Rightarrow> event list \<times> worker \<times> system
    \<Rightarrow> event list \<times> worker \<times> system" where
  "worker_run run_job self [] c = c"
| "worker_run run_job self (Own # ts) (evs, w, st) =
     (case thread_run run_job self w st of
        (new, w', st') \<Rightarrow> worker_run run_job self ts (evs @ new, w', st'))"
| "worker_run run_job self (Others st' # ts) (evs, w, st) = worker_run run_job self ts (evs, w, st')"

fun consumer_run :: "nat \<Rightarrow> turn list \<Rightarrow> event list \<times> consumer \<times> system
    \<Rightarrow> event list \<times> consumer \<times> system" where
  "consumer_run self [] c = c"
| "consumer_run self (Own # ts) (evs, c, st) =
     (case consume self c st of
        (new, c', st') \<Rightarrow> consumer_run self ts (evs @ new, c', st'))"
| "consumer_run self (Others st' # ts) (evs, c, st) = consumer_run self ts (evs, c, st')"

section \<open>Programs over the pools\<close>

text \<open>
  The calls a program and its threads can make, so that a property can be stated for every
  sequence of them. A worker or consumer step may come from any local state, which covers
  every thread that can exist.
\<close>

datatype action =
    Construct int source_arg int rat
  | Add nat pyval "pyval list" "(pyval \<times> pyval) list"
  | Forward nat nat
  | SetSource nat source_arg
  | Start nat nat
  | Run nat nat
  | Finish nat nat
  | Wait nat nat
  | WorkerStep nat worker
  | ConsumerStep nat consumer

fun state_of :: "outcome \<Rightarrow> system" where
  "state_of (Returned st) = st"
| "state_of (Raised e st) = st"
| "state_of (Blocked st) = st"

fun perform :: "(pyval \<Rightarrow> error + pyval) \<Rightarrow> action \<Rightarrow> system \<Rightarrow> system" where
  "perform run_job (Construct psize src capacity timeout) st =
     snd (ThreadPool st psize src capacity timeout)"
| "perform run_job (Add p callback args kwargs) st =
     (case add st p callback args kwargs of Inl e \<Rightarrow> st | Inr st' \<Rightarrow> st')"
| "perform run_job (Forward a b) st = snd (forward st a b)"
| "perform run_job (SetSource p src) st = set_source st p src"
| "perform run_job (Start p now) st = start st p now"
| "perform run_job (Run p now) st = run st p now"
| "perform run_job (Finish p now) st = state_of (finish st p now)"
| "perform run_job (Wait p now) st = state_of (wait st p now)"
| "perform run_job (WorkerStep p w) st = snd (snd (thread_run run_job p w st))"
| "perform run_job (ConsumerStep p c) st = snd (snd (consume p c st))"

fun execute :: "(pyval \<Rightarrow> error + pyval) \<Rightarrow> action list \<Rightarrow> system \<Rightarrow> system" where
  "execute run_job [] st = st"
| "execute run_job (a # as) st = execute run_job as (perform run_job a st)"

text \<open>Whether an action calls \<^verbatim>\<open>start()\<close> on pool \<open>p\<close>.\<close>

fun starts :: "nat \<Rightarrow> action \<Rightarrow> bool" where
  "starts p (Start p' now) = (p' = p)"
| "starts p (Run p' now) = (p' = p)"
| "starts p _ = False"

text \<open>All queues of the store hold at most their capacity, where they have one.\<close>

definition within_capacity :: "py_queue \<Rightarrow> bool" where
  "within_capacity q = (if 0 < maxsize q then qsize q \<le> maxsize q else True)"

text \<open>\<^verbatim>\<open>a >> b >> c\<close>: Python groups it as \<^verbatim>\<open>(a >> b) >> c\<close>.\<close>

definition rshift3 :: "system \<Rightarrow> nat \<Rightarrow> nat \<Rightarrow> nat \<Rightarrow> nat \<times> system" where
  "rshift3 st a b c = (let (r, st1) = rshift st a b in rshift st1 r c)"

text \<open>\<^verbatim>\<open>p0.forward(p1); p1.forward(p2); ...\<close>: each pool forwarded to the next one.\<close>

fun forward_chain :: "system \<Rightarrow> nat list \<Rightarrow> system" where
  "forward_chain st (a # b # ps) = forward_chain (snd (forward st a b)) (b # ps)"
| "forward_chain st [a] = st"
| "forward_chain st [] = st"

section \<open>What a worker's events must look like\<close>

text \<open>
  The events of complete loop iterations: each dequeued job is executed and then marked
  done once, with the forwarding of its result in between when there was one.
\<close>

fun accounted :: "event list \<Rightarrow> bool" where
  "accounted [] = True"
| "accounted (Dequeued j # Executed j' # TaskDone # evs) = (j = j' \<and> accounted evs)"
| "accounted (Dequeued j # Executed j' # Forwarded r # TaskDone # evs) = (j = j' \<and> accounted evs)"
| "accounted _ = False"

text \<open>The events of the iteration a worker is in the middle of.\<close>

fun in_iteration :: "worker \<Rightarrow> event list \<Rightarrow> bool" where
  "in_iteration (Running job) evs = (evs = [Dequeued job])"
| "in_iteration (Forwarding r) evs = (\<exists>j. evs = [Dequeued j, Executed j])"
| "in_iteration (Finally p) evs =
     (\<exists>j. evs = [Dequeued j, Executed j] \<or> (\<exists>r. evs = [Dequeued j, Executed j, Forwarded r]))"
| "in_iteration _ evs = (evs = [])"

definition worker_invariant :: "worker \<Rightarrow> event list \<Rightarrow> bool" where
  "worker_invariant w evs = (\<exists>past cur. evs = past @ cur \<and> accounted past \<and> in_iteration w cur)"

text \<open>A worker that holds no job: at the head of its loop, or terminated.\<close>

fun between_jobs :: "worker \<Rightarrow> bool" where
  "between_jobs AtGet = True"
| "between_jobs Exited = True"
| "between_jobs (Died e) = True"
| "between_jobs _ = False"

section \<open>What every call preserves\<close>

text \<open>
  From \<open>st\<close> to \<open>st'\<close>: no queue is lost, a queue within its capacity stays within it, and a
  queue that exists keeps the capacity it was created with.
\<close>

definition queue_step :: "system \<Rightarrow> system \<Rightarrow> bool" where
  "queue_step st st' =
     (next_queue st \<le> next_queue st'
      \<and> (\<forall>q. (within_capacity (queues st q) \<longrightarrow> within_capacity (queues st' q))
            \<and> (q < next_queue st \<longrightarrow> maxsize (queues st' q) = maxsize (queues st q))))"

text \<open>From \<open>st\<close> to \<open>st'\<close>: pool \<open>p\<close>, if it exists and was never started, still is so.\<close>

definition unstarted :: "nat \<Rightarrow> system \<Rightarrow> bool" where
  "unstarted p st = (p < next_pool st \<and> start_time (pools st p) = None)"

section \<open>What a consumer's events must look like\<close>

text \<open>The source items a consumer has put on the queue so far, in order.\<close>

fun fed :: "event list \<Rightarrow> pyval list" where
  "fed [] = []"
| "fed (Fed job # evs) = job # fed evs"
| "fed (ev # evs) = fed evs"

text \<open>The source items a consumer still holds: the one it is adding and those to come.\<close>

fun unfed :: "consumer \<Rightarrow> pyval list" where
  "unfed (NextItem items) = items"
| "unfed (Adding job rest) = job # rest"
| "unfed Consumed = []"
| "unfed (Failed e) = []"

fun has_failed :: "consumer \<Rightarrow> bool" where
  "has_failed (Failed e) = True"
| "has_failed _ = False"

text \<open>
  The items \<^verbatim>\<open>_consume\<close> lets through: \<^verbatim>\<open>len(job) == 3\<close>, and the call
  \<^verbatim>\<open>self.add(job[0], *job[1], **job[2])\<close> can be made.
\<close>

definition passes_checks :: "pyval \<Rightarrow> bool" where
  "passes_checks job =
     (case py_len job of
        Inl e \<Rightarrow> False
      | Inr n \<Rightarrow> n = 3 \<and> (case add_arguments job of Inl e \<Rightarrow> False | Inr x \<Rightarrow> True))"

text \<open>
  The specification's Job, in its words: an ordered triple of a callable reference, an
  ordered sequence of positional arguments and a mapping of keyword arguments. This
  definition follows the specification, not the code, and is only compared with
  \<open>passes_checks\<close>.
\<close>

fun is_callable :: "pyval \<Rightarrow> bool" where
  "is_callable (PFun f) = True"
| "is_callable _ = False"

fun is_sequence :: "pyval \<Rightarrow> bool" where
  "is_sequence (PTuple xs) = True"
| "is_sequence (PList xs) = True"
| "is_sequence _ = False"

fun is_mapping :: "pyval \<Rightarrow> bool" where
  "is_mapping (PDict kvs) = list_all (\<lambda>kv. is_str (fst kv)) kvs"
| "is_mapping _ = False"

fun spec_valid_job :: "pyval \<Rightarrow> bool" where
  "spec_valid_job (PTuple [f, a, k]) = (is_callable f \<and> is_sequence a \<and> is_mapping k)"
| "spec_valid_job _ = False"

text \<open>A consumer in its \<^verbatim>\<open>while True\<close> loop holds an item whose length was found to be 3.\<close>

fun checked_so_far :: "consumer \<Rightarrow> bool" where
  "checked_so_far (Adding job rest) = (py_len job = Inr 3)"
| "checked_so_far _ = True"

section \<open>The workers of one pool together\<close>

text \<open>
  All workers of a pool and the threads that add jobs to it, as a sequence of moves:
  worker \<open>i\<close> takes its next step, or a job is added to the input queue.
\<close>

datatype move = Step nat | Enqueue pyval "pyval list" "(pyval \<times> pyval) list"

fun pool_run :: "(pyval \<Rightarrow> error + pyval) \<Rightarrow> nat \<Rightarrow> move list \<Rightarrow> worker list \<times> system
    \<Rightarrow> worker list \<times> system" where
  "pool_run run_job self [] c = c"
| "pool_run run_job self (Step i # ms) (ws, st) =
     (if i < length ws
      then case thread_run run_job self (ws ! i) st of
             (evs, w', st') \<Rightarrow> pool_run run_job self ms (ws[i := w'], st')
      else pool_run run_job self ms (ws, st))"
| "pool_run run_job self (Enqueue callback args kwargs # ms) (ws, st) =
     (case add st self callback args kwargs of
        Inl e \<Rightarrow> pool_run run_job self ms (ws, st)
      | Inr st' \<Rightarrow> pool_run run_job self ms (ws, st'))"

text \<open>Whether a worker holds a dequeued job that it has not marked done yet.\<close>

definition holds :: "worker \<Rightarrow> int" where
  "holds w = (if between_jobs w then 0 else 1)"

definition in_flight :: "worker list \<Rightarrow> int" where
  "in_flight ws = sum_list (map holds ws)"

text \<open>
  The in-flight count of the input queue is accurate: \<^verbatim>\<open>unfinished_tasks\<close> is the number of
  queued items plus the number of jobs held by workers.
\<close>

definition count_accurate :: "nat \<Rightarrow> worker list \<Rightarrow> system \<Rightarrow> bool" where
  "count_accurate self ws st =
     (unfinished_tasks (queues st (queue (pools st self)))
        = qsize (queues st (queue (pools st self))) + in_flight ws)"

section \<open>A pool and the queue of its constructor\<close>

text \<open>Whether an action gives pool \<open>p\<close> another input queue.\<close>

fun rewires :: "nat \<Rightarrow> action \<Rightarrow> bool" where
  "rewires p (Forward a b) = (b = p)"
| "rewires p (SetSource p' (QueueSource q)) = (p' = p)"
| "rewires p (SetSource p' (PoolSource s)) = (p' = p)"
| "rewires p _ = False"

text \<open>Pool \<open>p\<close> exists, its input queue is the existing queue \<open>q\<close>, and its \<^verbatim>\<open>queue_capacity\<close> is \<open>capacity\<close>.\<close>

definition own_queue :: "nat \<Rightarrow> nat \<Rightarrow> int \<Rightarrow> system \<Rightarrow> bool" where
  "own_queue p q capacity st =
     (p < next_pool st \<and> q < next_queue st \<and> queue (pools st p) = q
      \<and> queue_capacity (pools st p) = capacity)"

section \<open>Concrete programs\<close>

text \<open>The empty store, and small programs the properties below are evaluated on.\<close>

definition no_pool :: thread_pool where
  "no_pool = \<lparr>pool_size = 0, pool = [], queue = 0, queue_capacity = 0, queue_timeout = 0,
     source = None, queue_out = None, start_time = None, end_time = None\<rparr>"

definition boot :: system where
  "boot = \<lparr>queues = (\<lambda>q. Queue 0), next_queue = 0, pools = (\<lambda>p. no_pool), next_pool = 0\<rparr>"

text \<open>\<^verbatim>\<open>ThreadPool(pool_size=2, queue_capacity=1)\<close>: pool 0 with queue 0.\<close>

definition one_pool :: system where
  "one_pool = snd (ThreadPool boot 2 NoSource 1 (1 / 2))"

text \<open>Three such pools with capacities 1, 2 and 3: pools 0, 1, 2 with queues 0, 1, 2.\<close>

definition three_pools :: system where
  "three_pools =
     snd (ThreadPool (snd (ThreadPool one_pool 2 NoSource 2 (1 / 2))) 2 NoSource 3 (1 / 2))"

definition job_f :: pyval where
  "job_f = PTuple [PFun ''f'', PTuple [PInt 1], PDict []]"

text \<open>A job callable that returns its triple unchanged.\<close>

definition echo :: "pyval \<Rightarrow> error + pyval" where
  "echo job = Inr job"

text \<open>A job callable that raises.\<close>

definition failing :: "pyval \<Rightarrow> error + pyval" where
  "failing job = Inl (JobFailure ''boom'')"

text \<open>Pool 0 with the job \<open>job_f\<close> in its queue, which is then full.\<close>

definition one_job :: system where
  "one_job = execute echo [Add 0 (PFun ''f'') [PInt 1] []] one_pool"

text \<open>\<^verbatim>\<open>pool0.forward(pool1)\<close> on the three pools: the shared queue is queue 3, of capacity 1.\<close>

definition pipeline :: system where
  "pipeline = snd (forward three_pools 0 1)"

text \<open>The same with a result already waiting in the shared queue and \<open>job_f\<close> queued in pool 0.\<close>

definition pipeline_full :: system where
  "pipeline_full =
     execute echo [WorkerStep 0 (Forwarding (PInt 7)), Add 0 (PFun ''f'') [PInt 1] []] pipeline"

text \<open>A triple whose first component is the integer 5, not a callable.\<close>

definition job_5 :: pyval where
  "job_5 = PTuple [PInt 5, PTuple [], PDict []]"

text \<open>A pair instead of a triple, and a triple whose arguments are the integer 7.\<close>

definition job_pair :: pyval where
  "job_pair = PTuple [PFun ''g'', PTuple []]"

definition job_bad_args :: pyval where
  "job_bad_args = PTuple [PFun ''g'', PInt 7, PDict []]"

text \<open>The pipeline after a worker of pool 0 has forwarded the result 7.\<close>

definition pipeline_fed :: system where
  "pipeline_fed = execute echo [WorkerStep 0 (Forwarding (PInt 7))] pipeline"

text \<open>\<^verbatim>\<open>pool0 >> pool1 >> pool2\<close> on the three pools.\<close>

definition infix_chain :: system where
  "infix_chain = snd (rshift3 three_pools 0 1 2)"

text \<open>
  \<^verbatim>\<open>pool2.forward(pool0)\<close> on the three pools, then two jobs added to pool 0, whose
  \<^verbatim>\<open>queue_capacity\<close> is 1.
\<close>

definition rewired :: system where
  "rewired = execute echo [Forward 2 0, Add 0 (PFun ''f'') [PInt 1] [], Add 0 (PFun ''g'') [] []]
     three_pools"

section \<open>Properties\<close>

subsection \<open>The concrete programs, evaluated\<close>

lemmas store_defs = boot_def no_pool_def ThreadPool_def new_Queue_def set_pool_def
  set_queue_def Queue_def Let_def

lemma one_pool_state:
  "pools one_pool 0 = \<lparr>pool_size = 2, pool = [], queue = 0, queue_capacity = 1,
     queue_timeout = 1 / 2, source = None, queue_out = None, start_time = None, end_time = None\<rparr>"
  "queues one_pool 0 = \<lparr>maxsize = 1, queue_items = [], unfinished_tasks = 0\<rparr>"
  "next_queue one_pool = 1"
  "next_pool one_pool = 1"
  by (simp_all add: one_pool_def store_defs)

lemma one_job_state:
  "pools one_job 0 = pools one_pool 0"
  "queues one_job 0 = \<lparr>maxsize = 1, queue_items = [job_f], unfinished_tasks = 1\<rparr>"
  by (simp_all add: one_job_def one_pool_state add_def put_def qsize_def bind_err_def
      set_queue_def job_f_def Let_def)

lemma pipeline_state:
  "pools pipeline 0 = \<lparr>pool_size = 2, pool = [], queue = 0, queue_capacity = 1,
     queue_timeout = 1 / 2, source = None, queue_out = Some 3, start_time = None, end_time = None\<rparr>"
  "pools pipeline 1 = \<lparr>pool_size = 2, pool = [], queue = 3, queue_capacity = 2,
     queue_timeout = 1 / 2, source = None, queue_out = None, start_time = None, end_time = None\<rparr>"
  "queues pipeline 0 = \<lparr>maxsize = 1, queue_items = [], unfinished_tasks = 0\<rparr>"
  "queues pipeline 3 = \<lparr>maxsize = 1, queue_items = [], unfinished_tasks = 0\<rparr>"
  by (simp_all add: pipeline_def three_pools_def one_pool_def store_defs)

lemma pipeline_full_state:
  "pools pipeline_full 0 = pools pipeline 0"
  "queues pipeline_full 0 = \<lparr>maxsize = 1, queue_items = [job_f], unfinished_tasks = 1\<rparr>"
  "queues pipeline_full 3 = \<lparr>maxsize = 1, queue_items = [PInt 7], unfinished_tasks = 1\<rparr>"
  by (simp_all add: pipeline_full_def pipeline_state add_def put_def qsize_def bind_err_def
      set_queue_def job_f_def Let_def)

subsection \<open>Helper lemmas on the worker\<close>

lemma except_Empty_not_surfaced: "except_Empty e \<noteq> Died Empty"
  by (simp add: except_Empty_def)

lemma accounted_append: "accounted xs \<Longrightarrow> accounted ys \<Longrightarrow> accounted (xs @ ys)"
  by (induction xs rule: accounted.induct) auto

lemma worker_run_Exited:
  "fst (worker_run run_job self ts (evs, Exited, st)) = evs
   \<and> fst (snd (worker_run run_job self ts (evs, Exited, st))) = Exited"
proof (induction ts arbitrary: st)
  case Nil
  show ?case by simp
next
  case (Cons t ts)
  show ?case by (cases t) (simp_all add: Cons.IH)
qed

lemma thread_run_no_Empty:
  assumes "w \<noteq> Died Empty"
  shows "fst (snd (thread_run run_job self w st)) \<noteq> Died Empty"
proof (cases w)
  case AtGet
  then show ?thesis
    by (simp add: Let_def except_Empty_not_surfaced split: sum.splits prod.splits)
next
  case (Running job)
  then show ?thesis by (simp split: sum.splits option.splits)
next
  case (Forwarding r)
  then show ?thesis by (simp split: sum.splits option.splits)
next
  case (Finally p)
  then show ?thesis
    by (simp add: Let_def except_Empty_not_surfaced split: sum.splits option.splits)
next
  case Exited
  then show ?thesis by simp
next
  case (Died e)
  then show ?thesis using assms by simp
qed

lemma worker_run_no_Empty:
  "w \<noteq> Died Empty \<Longrightarrow> fst (snd (worker_run run_job self ts (evs, w, st))) \<noteq> Died Empty"
proof (induction ts arbitrary: evs w st)
  case Nil
  then show ?case by simp
next
  case (Cons t ts)
  show ?case
  proof (cases t)
    case Own
    obtain new w' st' where step: "thread_run run_job self w st = (new, w', st')"
      by (cases "thread_run run_job self w st") auto
    have "w' \<noteq> Died Empty"
      using thread_run_no_Empty [OF Cons.prems, of run_job self st] step by simp
    then show ?thesis using Own step Cons.IH by simp
  next
    case (Others st')
    then show ?thesis using Cons by simp
  qed
qed

lemma worker_invariantI:
  "accounted past \<Longrightarrow> in_iteration w cur \<Longrightarrow> worker_invariant w (past @ cur)"
  by (auto simp: worker_invariant_def)

lemma thread_run_invariant:
  assumes "worker_invariant w evs" and "thread_run run_job self w st = (new, w', st')"
  shows "worker_invariant w' (evs @ new)"
proof -
  obtain past cur where e: "evs = past @ cur" and a: "accounted past" and c: "in_iteration w cur"
    using assms(1) by (auto simp: worker_invariant_def)
  show ?thesis
  proof (cases w)
    case AtGet
    then have "cur = []" using c by simp
    moreover have "in_iteration w' new" using AtGet assms(2)
      by (auto simp: Let_def except_Empty_def split: sum.splits prod.splits if_splits)
    ultimately show ?thesis using worker_invariantI [OF a, of w' new] e by simp
  next
    case (Running job)
    then have "cur = [Dequeued job]" using c by simp
    moreover have "new = [Executed job]" "in_iteration w' [Dequeued job, Executed job]"
      using Running assms(2) by (auto split: sum.splits option.splits)
    ultimately show ?thesis
      using worker_invariantI [OF a, of w' "[Dequeued job, Executed job]"] e by simp
  next
    case (Forwarding r)
    then obtain j where cur: "cur = [Dequeued j, Executed j]" using c by auto
    have "in_iteration w' (cur @ new)" using Forwarding assms(2) cur
      by (auto split: sum.splits option.splits)
    then show ?thesis using worker_invariantI [OF a, of w' "cur @ new"] e by simp
  next
    case (Finally p)
    then obtain j where
      cur: "cur = [Dequeued j, Executed j] \<or> (\<exists>r. cur = [Dequeued j, Executed j, Forwarded r])"
      using c by auto
    have "accounted (cur @ [TaskDone])" using cur by auto
    then have fin: "accounted (past @ cur @ [TaskDone])"
      using a accounted_append by blast
    have new: "new = [TaskDone]" and w': "w' = AtGet \<or> w' = Exited \<or> (\<exists>e. w' = Died e)"
      using Finally assms(2)
      by (auto simp: Let_def except_Empty_def split: sum.splits option.splits if_splits)
    have "in_iteration w' []" using w' by auto
    then show ?thesis using worker_invariantI [OF fin, of w' "[]"] new e by simp
  next
    case Exited
    then show ?thesis using assms by simp
  next
    case (Died e)
    then show ?thesis using assms by simp
  qed
qed

lemma worker_run_invariant:
  "worker_invariant w evs \<Longrightarrow> worker_run run_job self ts (evs, w, st) = (evs', w', st')
     \<Longrightarrow> worker_invariant w' evs'"
proof (induction ts arbitrary: evs w st)
  case Nil
  then show ?case by simp
next
  case (Cons t ts)
  show ?case
  proof (cases t)
    case Own
    obtain new w1 st1 where step: "thread_run run_job self w st = (new, w1, st1)"
      by (cases "thread_run run_job self w st") auto
    have "worker_invariant w1 (evs @ new)"
      using thread_run_invariant [OF Cons.prems(1) step] .
    then show ?thesis using Cons.IH [of w1 "evs @ new" st1] Cons.prems(2) Own step by simp
  next
    case (Others s)
    then show ?thesis using Cons by simp
  qed
qed

lemma run_of_failing_job:
  "fst (worker_run failing 0 [Own, Own, Own] ([], AtGet, one_job))
     = [Dequeued job_f, Executed job_f, TaskDone]"
  "fst (snd (worker_run failing 0 [Own, Own, Own] ([], AtGet, one_job))) = Died (JobFailure ''boom'')"
  by (simp_all add: one_job_state one_pool_state get_def task_done_def failing_def
      except_Empty_def set_queue_def Let_def)

lemma run_of_refused_result:
  "fst (worker_run echo 0 [Own, Own, Own, Own] ([], AtGet, pipeline_full))
     = [Dequeued job_f, Executed job_f, TaskDone]"
  "fst (snd (worker_run echo 0 [Own, Own, Own, Own] ([], AtGet, pipeline_full))) = Died Full"
  by (simp_all add: pipeline_full_state pipeline_state get_def put_def qsize_def task_done_def
      echo_def except_Empty_def set_queue_def Let_def)

subsection \<open>C2: the job count\<close>

text \<open>
  C2 says that \<^verbatim>\<open>jobs_count()\<close> returns the worker count plus the queue depth, a number.
  The code applies \<^verbatim>\<open>len\<close> to the integer \<^verbatim>\<open>qsize()\<close> returns, so for every pool in every
  state the call raises \<^verbatim>\<open>TypeError\<close> and returns nothing.
\<close>

theorem jobs_count_raises: "jobs_count st self = Inl TypeError"
  by (simp add: jobs_count_def bind_err_def)

subsection \<open>C9: adding a job\<close>



subsection \<open>C8: a worker that finds its queue empty\<close>

text \<open>
  C8: when \<^verbatim>\<open>get\<close> times out on the empty input queue, the worker leaves its loop through
  \<^verbatim>\<open>except Empty: break\<close>: the thread function returns normally (\<open>Exited\<close>), with no event and
  no change to the shared objects. \<open>Exited\<close> is final: whatever happens afterwards, the
  worker stays there and does nothing more. And \<^verbatim>\<open>Empty\<close> never leaves a worker: no
  schedule takes a worker from the head of its loop to \<open>Died Empty\<close>.
\<close>

theorem worker_exits_on_Empty:
  "queue_items (queues st (queue (pools st self))) = [] \<Longrightarrow>
     thread_run run_job self AtGet st = ([], Exited, st)
     \<and> fst (worker_run run_job self ts (evs, Exited, st')) = evs
     \<and> fst (snd (worker_run run_job self ts (evs, Exited, st'))) = Exited
     \<and> fst (snd (worker_run run_job self ts' ([], AtGet, st''))) \<noteq> Died Empty"
  using worker_run_Exited [of run_job self ts evs st']
    worker_run_no_Empty [of AtGet run_job self ts' "[]" st'']
  by (simp add: get_def except_Empty_def)

theorem worker_exits_on_Empty_witness:
  "queue_items (queues one_pool (queue (pools one_pool 0))) = []
   \<and> thread_run echo 0 AtGet one_pool = ([], Exited, one_pool)
   \<and> fst (worker_run echo 0 [Own, Others one_job, Own] ([], Exited, one_pool)) = []
   \<and> fst (snd (worker_run echo 0 [Own, Others one_job, Own] ([], Exited, one_pool))) = Exited
   \<and> fst (snd (worker_run echo 0 [Own, Own] ([], AtGet, one_pool))) \<noteq> Died Empty"
proof -
  have h: "queue_items (queues one_pool (queue (pools one_pool 0))) = []"
    by (simp add: one_pool_state)
  show ?thesis
    using h worker_exits_on_Empty [OF h, of echo "[Own, Others one_job, Own]" "[]" one_pool
        "[Own, Own]" one_pool]
    by blast
qed

subsection \<open>Helper lemmas on the queues of the store\<close>

lemma within_capacity_Queue: "within_capacity (Queue n)"
  by (simp add: within_capacity_def Queue_def qsize_def)

lemma put_keeps:
  "put Q item t = Inr Q' \<Longrightarrow>
     maxsize Q' = maxsize Q \<and> (within_capacity Q \<longrightarrow> within_capacity Q')"
  by (auto simp: put_def within_capacity_def qsize_def split: if_splits)

lemma get_keeps:
  "get Q t = Inr (item, Q') \<Longrightarrow>
     maxsize Q' = maxsize Q \<and> (within_capacity Q \<longrightarrow> within_capacity Q')"
  by (auto simp: get_def within_capacity_def qsize_def split: list.splits if_splits)

lemma task_done_keeps:
  "task_done Q = Inr Q' \<Longrightarrow>
     maxsize Q' = maxsize Q \<and> (within_capacity Q \<longrightarrow> within_capacity Q')"
  by (auto simp: task_done_def within_capacity_def qsize_def Let_def split: if_splits)

lemma queue_step_refl: "queue_step st st"
  by (simp add: queue_step_def)

lemma queue_step_trans: "queue_step a b \<Longrightarrow> queue_step b c \<Longrightarrow> queue_step a c"
  unfolding queue_step_def by (metis le_trans less_le_trans)

lemma queue_step_same_queues:
  "queues st' = queues st \<Longrightarrow> next_queue st' = next_queue st \<Longrightarrow> queue_step st st'"
  by (simp add: queue_step_def)

lemma queue_step_set_pool: "queue_step st (set_pool st p v)"
  by (simp add: queue_step_same_queues set_pool_def)

lemma queue_step_set_queue:
  "maxsize Q' = maxsize (queues st q) \<Longrightarrow>
   (within_capacity (queues st q) \<longrightarrow> within_capacity Q') \<Longrightarrow> queue_step st (set_queue st q Q')"
  by (simp add: queue_step_def set_queue_def)

lemma queue_step_new_Queue: "queue_step st (snd (new_Queue st n))"
  by (simp add: queue_step_def new_Queue_def within_capacity_Queue)

lemma forward_store:
  "queues (snd (forward st a b)) = (queues st)(next_queue st := Queue (queue_capacity (pools st a)))"
  "next_queue (snd (forward st a b)) = Suc (next_queue st)"
  "next_pool (snd (forward st a b)) = next_pool st"
  "fst (forward st a b) = a"
  by (simp_all add: new_Queue_def set_pool_def Let_def)

declare forward.simps [simp del]

lemma queue_step_forward: "queue_step st (snd (forward st a b))"
  by (simp add: queue_step_def forward_store within_capacity_Queue)

lemma queue_step_set_source: "queue_step st (set_source st p src)"
proof (cases src)
  case (PoolSource s)
  then show ?thesis using queue_step_forward [of st s p] by simp
qed (simp_all add: queue_step_set_pool)

lemma queue_step_ThreadPool: "queue_step st (snd (ThreadPool st psize src capacity timeout))"
proof -
  let ?st2 = "(set_pool (snd (new_Queue st capacity)) (next_pool st)
                   \<lparr>pool_size = psize, pool = [], queue = next_queue st, queue_capacity = capacity,
                    queue_timeout = timeout, source = None, queue_out = None,
                    start_time = None, end_time = None\<rparr>)\<lparr>next_pool := Suc (next_pool st)\<rparr>"
  have a: "queue_step st ?st2"
    by (simp add: queue_step_def new_Queue_def set_pool_def within_capacity_Queue)
  have b: "snd (ThreadPool st psize src capacity timeout) = set_source ?st2 (next_pool st) src"
    by (simp add: ThreadPool_def Let_def new_Queue_def)
  show ?thesis using queue_step_trans [OF a queue_step_set_source] b by simp
qed

lemma queue_step_add: "add st p callback args kwargs = Inr st' \<Longrightarrow> queue_step st st'"
  by (auto simp: add_def bind_err_def Let_def split: sum.splits
      intro!: queue_step_set_queue dest: put_keeps)

lemma queue_step_start: "queue_step st (start st p now)"
  by (simp add: start_def queue_step_set_pool)

lemma queue_step_run: "queue_step st (run st p now)"
  by (auto simp: run_def build_pool_def start_def Let_def split: option.splits
      intro!: queue_step_same_queues simp: set_pool_def)

lemma queue_step_finish: "queue_step st (state_of (finish st p now))"
  by (auto simp: finish_def Let_def queue_step_set_pool split: option.splits)

lemma queue_step_wait: "queue_step st (state_of (wait st p now))"
  by (simp add: wait_def queue_step_finish queue_step_refl)

lemma queue_step_thread_run: "queue_step st (snd (snd (thread_run run_job p w st)))"
proof (cases w)
  case AtGet
  then show ?thesis
    by (auto simp: Let_def queue_step_refl split: sum.splits prod.splits
        intro!: queue_step_set_queue dest: get_keeps)
next
  case (Running job)
  then show ?thesis by (simp add: queue_step_refl split: sum.splits option.splits)
next
  case (Forwarding r)
  then show ?thesis
    by (auto simp: queue_step_refl split: sum.splits option.splits
        intro!: queue_step_set_queue dest: put_keeps)
next
  case (Finally e)
  then show ?thesis
    by (auto simp: Let_def queue_step_refl split: sum.splits
        intro!: queue_step_set_queue dest: task_done_keeps)
qed (simp_all add: queue_step_refl)

lemma queue_step_consume: "queue_step st (snd (snd (consume p c st)))"
proof (cases c)
  case (NextItem items)
  then show ?thesis
    by (cases items) (simp_all add: queue_step_refl split: sum.splits)
next
  case (Adding job rest)
  then show ?thesis
    by (auto simp: queue_step_refl split: sum.splits prod.splits dest: queue_step_add)
qed (simp_all add: queue_step_refl)

lemma queue_step_perform: "queue_step st (perform run_job a st)"
proof (cases a)
  case (Add p callback args kwargs)
  then show ?thesis by (auto simp: queue_step_refl split: sum.splits dest: queue_step_add)
qed (simp_all add: queue_step_ThreadPool queue_step_forward queue_step_set_source queue_step_start
    queue_step_run queue_step_finish queue_step_wait queue_step_thread_run queue_step_consume)

lemma queue_step_execute: "queue_step st (execute run_job acts st)"
proof (induction acts arbitrary: st)
  case Nil
  show ?case by (simp add: queue_step_refl)
next
  case (Cons a acts)
  show ?case using queue_step_trans [OF queue_step_perform Cons.IH] by simp
qed


lemma ThreadPool_queue:
  "maxsize (queues (snd (ThreadPool st psize src capacity timeout)) (next_queue st)) = capacity"
  "queue_capacity (pools (snd (ThreadPool st psize src capacity timeout)) (next_pool st)) = capacity"
  "fst (ThreadPool st psize src capacity timeout) = next_pool st"
  by (cases src; simp add: ThreadPool_def Let_def new_Queue_def set_pool_def Queue_def forward.simps)+

lemma put_on_full: "0 < maxsize Q \<and> qsize Q = maxsize Q \<longrightarrow> put Q item timeout = Inl Full"
  by (simp add: put_def)

lemma all_within_one_pool: "\<forall>q. within_capacity (queues one_pool q)"
  by (simp add: one_pool_def store_defs within_capacity_def qsize_def)

lemma three_adds_state:
  "queues (execute echo [Add 0 (PFun ''f'') [PInt 1] [], Add 0 (PFun ''g'') [] [],
      WorkerStep 0 AtGet, Add 0 (PFun ''h'') [] []] one_pool) 0
   = \<lparr>maxsize = 1, queue_items = [PTuple [PFun ''h'', PTuple [], PDict []]], unfinished_tasks = 2\<rparr>"
  by (simp add: one_pool_state add_def put_def get_def qsize_def bind_err_def set_queue_def Let_def)

lemma one_pool_constructed:
  "fst (ThreadPool boot 2 NoSource 1 (1 / 2)) = 0"
  "snd (ThreadPool boot 2 NoSource 1 (1 / 2)) = one_pool"
  by (simp_all add: one_pool_def ThreadPool_queue(3) boot_def)

subsection \<open>Helper lemmas on pools that were never started\<close>

lemma unstarted_same_start:
  "next_pool st \<le> next_pool st' \<Longrightarrow> start_time (pools st' p) = start_time (pools st p) \<Longrightarrow>
     unstarted p st \<Longrightarrow> unstarted p st'"
  by (simp add: unstarted_def)

lemma forward_start_time:
  "start_time (pools (snd (forward st a b)) p) = start_time (pools st p)"
  by (simp add: forward.simps new_Queue_def set_pool_def Let_def)

lemma set_source_start_time:
  "start_time (pools (set_source st p' src) p) = start_time (pools st p)"
  "next_pool (set_source st p' src) = next_pool st"
  by (cases src; simp add: forward_start_time forward_store set_pool_def)+

lemma unstarted_ThreadPool:
  "unstarted p st \<Longrightarrow> unstarted p (snd (ThreadPool st psize src capacity timeout))"
  by (simp add: unstarted_def ThreadPool_def Let_def new_Queue_def set_source_start_time set_pool_def)

lemma unstarted_new_pool:
  "unstarted (next_pool st) (snd (ThreadPool st psize src capacity timeout))"
  by (simp add: unstarted_def ThreadPool_def Let_def new_Queue_def set_source_start_time set_pool_def)

lemma add_pools: "add st p callback args kwargs = Inr st' \<Longrightarrow> pools st' = pools st \<and> next_pool st' = next_pool st"
  by (auto simp: add_def bind_err_def Let_def set_queue_def split: sum.splits)

lemma thread_run_pools:
  "pools (snd (snd (thread_run run_job p w st))) = pools st
   \<and> next_pool (snd (snd (thread_run run_job p w st))) = next_pool st"
  by (cases w) (auto simp: Let_def set_queue_def split: sum.splits prod.splits option.splits)

lemma consume_pools:
  "pools (snd (snd (consume p c st))) = pools st \<and> next_pool (snd (snd (consume p c st))) = next_pool st"
proof (cases c)
  case (NextItem items)
  then show ?thesis by (cases items) (simp_all split: sum.splits)
next
  case (Adding job rest)
  then show ?thesis by (auto split: sum.splits prod.splits dest: add_pools)
qed simp_all

lemma unstarted_perform:
  assumes "unstarted p st" and "\<not> starts p a"
  shows "unstarted p (perform run_job a st)"
proof (cases a)
  case (Construct psize src capacity timeout)
  then show ?thesis using assms unstarted_ThreadPool by simp
next
  case (Add p' callback args kwargs)
  then show ?thesis using assms by (auto simp: unstarted_def split: sum.splits dest: add_pools)
next
  case (Forward a b)
  then show ?thesis using assms by (simp add: unstarted_def forward_start_time forward_store)
next
  case (SetSource p' src)
  then show ?thesis using assms by (simp add: unstarted_def set_source_start_time)
next
  case (Start p' now)
  then show ?thesis using assms by (simp add: unstarted_def start_def set_pool_def)
next
  case (Run p' now)
  then show ?thesis using assms
    by (auto simp: unstarted_def run_def build_pool_def start_def set_pool_def Let_def
        split: option.splits)
next
  case (Finish p' now)
  then show ?thesis using assms
    by (auto simp: unstarted_def finish_def set_pool_def Let_def split: option.splits)
next
  case (Wait p' now)
  then show ?thesis using assms
    by (auto simp: unstarted_def wait_def finish_def set_pool_def Let_def split: option.splits)
next
  case (WorkerStep p' w)
  then show ?thesis using assms thread_run_pools [of run_job p' w st] by (simp add: unstarted_def)
next
  case (ConsumerStep p' c)
  then show ?thesis using assms consume_pools [of p' c st] by (simp add: unstarted_def)
qed

lemma unstarted_execute:
  "unstarted p st \<Longrightarrow> list_all (\<lambda>a. \<not> starts p a) acts \<Longrightarrow> unstarted p (execute run_job acts st)"
proof (induction acts arbitrary: st)
  case Nil
  then show ?case by simp
next
  case (Cons a acts)
  then show ?case using unstarted_perform [of p st a run_job] by simp
qed

lemma wait_unstarted:
  assumes "start_time (pools st p) = None"
  shows "(\<forall>st'. wait st p now \<noteq> Returned st')
     \<and> (join_returns (queues st (queue (pools st p)))
          \<longrightarrow> wait st p now
              = Raised AttributeError (set_pool st p ((pools st p)\<lparr>end_time := Some now\<rparr>)))
     \<and> (\<not> join_returns (queues st (queue (pools st p))) \<longrightarrow> wait st p now = Blocked st)"
  using assms by (simp add: wait_def finish_def Let_def set_pool_def)

subsection \<open>C10: waiting on a pool that was never started\<close>

text \<open>
  C10, as the code has it: take a pool from its constructor and let any calls follow, on
  this pool or others, except \<^verbatim>\<open>start()\<close> and \<^verbatim>\<open>run()\<close> on this pool. Then \<^verbatim>\<open>wait()\<close> on it never
  returns normally. While the input queue has unfinished tasks, \<^verbatim>\<open>join()\<close> does not return
  and \<^verbatim>\<open>wait\<close> blocks. Once \<^verbatim>\<open>join()\<close> returns, \<^verbatim>\<open>finish\<close> first assigns \<^verbatim>\<open>_end_time\<close> and then
  reads \<^verbatim>\<open>_start_time\<close>, which only \<^verbatim>\<open>start()\<close> assigns: \<^verbatim>\<open>wait\<close> raises \<^verbatim>\<open>AttributeError\<close>, in a
  state where the end timestamp is already recorded.
\<close>

theorem wait_before_start_never_returns:
  "p = fst (ThreadPool st0 psize src capacity timeout) \<Longrightarrow>
   st = execute run_job acts (snd (ThreadPool st0 psize src capacity timeout)) \<Longrightarrow>
   list_all (\<lambda>a. \<not> starts p a) acts \<Longrightarrow>
     (\<forall>st'. wait st p now \<noteq> Returned st')
     \<and> (join_returns (queues st (queue (pools st p)))
          \<longrightarrow> wait st p now
              = Raised AttributeError (set_pool st p ((pools st p)\<lparr>end_time := Some now\<rparr>)))
     \<and> (\<not> join_returns (queues st (queue (pools st p))) \<longrightarrow> wait st p now = Blocked st)"
proof -
  assume p: "p = fst (ThreadPool st0 psize src capacity timeout)"
    and st: "st = execute run_job acts (snd (ThreadPool st0 psize src capacity timeout))"
    and a: "list_all (\<lambda>a. \<not> starts p a) acts"
  have "unstarted p (snd (ThreadPool st0 psize src capacity timeout))"
    using unstarted_new_pool [of st0] p by (simp add: ThreadPool_queue(3))
  then have "unstarted p st"
    using unstarted_execute a st by blast
  then have "start_time (pools st p) = None"
    by (simp add: unstarted_def)
  then show ?thesis using wait_unstarted by blast
qed

theorem wait_before_start_never_returns_witness:
  "(0::nat) = fst (ThreadPool boot 2 NoSource 1 (1 / 2))
   \<and> one_job = execute echo [Add 0 (PFun ''f'') [PInt 1] []] (snd (ThreadPool boot 2 NoSource 1 (1 / 2)))
   \<and> list_all (\<lambda>a. \<not> starts 0 a) [Add 0 (PFun ''f'') [PInt 1] []]
   \<and> \<not> join_returns (queues one_job (queue (pools one_job 0)))
   \<and> wait one_job 0 7 = Blocked one_job
   \<and> one_pool = execute echo [] (snd (ThreadPool boot 2 NoSource 1 (1 / 2)))
   \<and> list_all (\<lambda>a. \<not> starts 0 a) []
   \<and> join_returns (queues one_pool (queue (pools one_pool 0)))
   \<and> wait one_pool 0 7
       = Raised AttributeError (set_pool one_pool 0 ((pools one_pool 0)\<lparr>end_time := Some 7\<rparr>))
   \<and> (\<forall>st'. wait one_pool 0 7 \<noteq> Returned st')"
proof -
  have p: "(0::nat) = fst (ThreadPool boot 2 NoSource 1 (1 / 2))"
    by (simp add: one_pool_constructed)
  have s1: "one_job = execute echo [Add 0 (PFun ''f'') [PInt 1] []] (snd (ThreadPool boot 2 NoSource 1 (1 / 2)))"
    by (simp only: one_job_def one_pool_constructed)
  have s2: "one_pool = execute echo [] (snd (ThreadPool boot 2 NoSource 1 (1 / 2)))"
    by (simp add: one_pool_constructed)
  have a1: "list_all (\<lambda>a. \<not> starts 0 a) [Add 0 (PFun ''f'') [PInt 1] []]" by simp
  have a2: "list_all (\<lambda>a. \<not> starts 0 a) []" by simp
  have j1: "\<not> join_returns (queues one_job (queue (pools one_job 0)))"
    by (simp add: join_returns_def one_job_state one_pool_state)
  have j2: "join_returns (queues one_pool (queue (pools one_pool 0)))"
    by (simp add: join_returns_def one_pool_state)
  show ?thesis
    using p s1 s2 a1 a2 j1 j2
      wait_before_start_never_returns [OF p s1 a1, of 7]
      wait_before_start_never_returns [OF p s2 a2, of 7]
    by blast
qed

text \<open>
  C10 as stated has \<^verbatim>\<open>wait()\<close> fail instead of recording an end timestamp. On a fresh pool
  the call fails, and the pool's \<^verbatim>\<open>_end_time\<close>, absent before, is set afterwards.
\<close>

theorem wait_records_end_time_before_failing:
  "wait one_pool 0 7 = Raised AttributeError (set_pool one_pool 0 ((pools one_pool 0)\<lparr>end_time := Some 7\<rparr>))
   \<and> end_time (pools (state_of (wait one_pool 0 7)) 0) = Some 7
   \<and> end_time (pools one_pool 0) = None"
  by (simp add: wait_def finish_def join_returns_def one_pool_state set_pool_def Let_def)

subsection \<open>Helper lemmas on the consumer\<close>

lemma fed_append: "fed (xs @ ys) = fed xs @ fed ys"
  by (induction xs rule: fed.induct) simp_all

lemma add_only_Full: "add st p callback args kwargs = Inl e \<Longrightarrow> e = Full"
  by (auto simp: add_def put_def bind_err_def Let_def split: if_splits)

lemma consume_keeps_items:
  assumes "consume self c st = (new, c', st')" and "list_all passes_checks (unfed c)"
    and "\<not> has_failed c"
  shows "fed new @ unfed c' = unfed c \<and> \<not> has_failed c'"
proof (cases c)
  case (NextItem items)
  show ?thesis
  proof (cases items)
    case Nil
    then show ?thesis using NextItem assms by auto
  next
    case (Cons job rest)
    then have "passes_checks job" using NextItem assms(2) by simp
    then have "py_len job = Inr 3"
      by (auto simp: passes_checks_def split: sum.splits)
    then show ?thesis using NextItem Cons assms(1) by auto
  qed
next
  case (Adding job rest)
  then have "passes_checks job" using assms(2) by simp
  then obtain callback args kwargs where a: "add_arguments job = Inr (callback, args, kwargs)"
    by (auto simp: passes_checks_def split: sum.splits)
  show ?thesis
  proof (cases "add st self callback args kwargs")
    case (Inl e)
    then have "e = Full" using add_only_Full by blast
    then show ?thesis using Adding a Inl assms(1) by auto
  next
    case (Inr st'')
    then show ?thesis using Adding a assms(1) by auto
  qed
next
  case Consumed
  then show ?thesis using assms by auto
next
  case (Failed e)
  then show ?thesis using assms by simp
qed

lemma consumer_run_keeps_items:
  "list_all passes_checks (unfed c) \<Longrightarrow> \<not> has_failed c \<Longrightarrow>
     fed (fst (consumer_run self ts (evs, c, st))) @ unfed (fst (snd (consumer_run self ts (evs, c, st))))
       = fed evs @ unfed c
     \<and> \<not> has_failed (fst (snd (consumer_run self ts (evs, c, st))))"
proof (induction ts arbitrary: evs c st)
  case Nil
  then show ?case by simp
next
  case (Cons t ts)
  show ?case
  proof (cases t)
    case Own
    obtain new c' st' where step: "consume self c st = (new, c', st')"
      by (cases "consume self c st") auto
    have k: "fed new @ unfed c' = unfed c \<and> \<not> has_failed c'"
      using consume_keeps_items [OF step Cons.prems] .
    then have "list_all passes_checks (unfed c')"
      using Cons.prems(1) by (metis list_all_append)
    then have "fed (fst (consumer_run self ts (evs @ new, c', st')))
         @ unfed (fst (snd (consumer_run self ts (evs @ new, c', st'))))
       = fed (evs @ new) @ unfed c'
       \<and> \<not> has_failed (fst (snd (consumer_run self ts (evs @ new, c', st'))))"
      using Cons.IH k by blast
    then show ?thesis using Own step k by (simp add: fed_append)
  next
    case (Others s)
    then show ?thesis using Cons by simp
  qed
qed

lemma consumer_run_Failed:
  "fst (consumer_run self ts (evs, Failed e, st)) = evs
   \<and> fst (snd (consumer_run self ts (evs, Failed e, st))) = Failed e"
proof (induction ts arbitrary: st)
  case Nil
  show ?case by simp
next
  case (Cons t ts)
  show ?case by (cases t) (simp_all add: Cons.IH)
qed

lemma consume_rejects:
  assumes "\<not> passes_checks job"
  shows "(\<exists>e. consume self (NextItem (job # rest)) st = ([], Failed e, st))
     \<or> (consume self (NextItem (job # rest)) st = ([], Adding job rest, st)
         \<and> (\<forall>st'. \<exists>e. consume self (Adding job rest) st' = ([], Failed e, st')))"
  using assms by (auto simp: passes_checks_def split: sum.splits)

lemma consume_feeds_checked:
  assumes "consume self c st = (new, c', st')" and "\<not> has_failed c" and "checked_so_far c"
  shows "(has_failed c' \<and> new = [])
     \<or> (\<not> has_failed c' \<and> fed new @ unfed c' = unfed c \<and> list_all passes_checks (fed new)
          \<and> checked_so_far c')"
proof (cases c)
  case (NextItem items)
  then show ?thesis using assms
    by (cases items) (auto split: sum.splits if_splits)
next
  case (Adding job rest)
  then show ?thesis using assms
    by (auto simp: passes_checks_def split: sum.splits if_splits)
next
  case Consumed
  then show ?thesis using assms by auto
next
  case (Failed e)
  then show ?thesis using assms by simp
qed

lemma consumer_run_feeds_checked:
  "list_all passes_checks (fed evs) \<Longrightarrow> src = fed evs @ unfed c \<Longrightarrow> \<not> has_failed c \<Longrightarrow>
   checked_so_far c \<Longrightarrow>
     list_all passes_checks (fed (fst (consumer_run self ts (evs, c, st))))
     \<and> prefix (fed (fst (consumer_run self ts (evs, c, st)))) src"
proof (induction ts arbitrary: evs c st)
  case Nil
  then show ?case by simp
next
  case (Cons t ts)
  show ?case
  proof (cases t)
    case Own
    obtain new c' st' where step: "consume self c st = (new, c', st')"
      by (cases "consume self c st") auto
    from consume_feeds_checked [OF step Cons.prems(3,4)]
    show ?thesis
    proof
      assume f: "has_failed c' \<and> new = []"
      then obtain e where "c' = Failed e" by (cases c') auto
      then show ?thesis
        using Own step f Cons.prems(1,2) consumer_run_Failed [of self ts evs e st'] by simp
    next
      assume k: "\<not> has_failed c' \<and> fed new @ unfed c' = unfed c
        \<and> list_all passes_checks (fed new) \<and> checked_so_far c'"
      have "list_all passes_checks (fed (evs @ new))"
        using k Cons.prems(1) by (simp add: fed_append)
      moreover have "src = fed (evs @ new) @ unfed c'"
        using k Cons.prems(2) by (simp add: fed_append)
      ultimately show ?thesis using Cons.IH [of "evs @ new" c' st'] k Own step by simp
    qed
  next
    case (Others s)
    then show ?thesis using Cons by simp
  qed
qed

lemma checked_prefix_stops:
  assumes "list_all P xs" and "prefix xs (pre @ bad # post)" and "\<not> P bad"
  shows "prefix xs pre"
proof -
  from assms(2) have "prefix xs pre \<or> (\<exists>us. xs = pre @ us \<and> prefix us (bad # post))"
    by (simp add: prefix_append)
  then show ?thesis
  proof
    assume "prefix xs pre"
    then show ?thesis .
  next
    assume "\<exists>us. xs = pre @ us \<and> prefix us (bad # post)"
    then obtain us where us: "xs = pre @ us" "prefix us (bad # post)" by blast
    show ?thesis
    proof (cases us)
      case Nil
      then show ?thesis using us by simp
    next
      case (Cons u us')
      then have "u = bad" using us(2) by simp
      then have "P bad" using assms(1) us(1) Cons by simp
      then show ?thesis using assms(3) by simp
    qed
  qed
qed

text \<open>
  A Job in the specification's sense passes the consumer's checks, unless one of its
  keywords is named like a parameter of \<^verbatim>\<open>add\<close>.
\<close>

lemma spec_valid_job_passes:
  assumes "spec_valid_job (PTuple [f, a, PDict kwargs])"
    and "PStr ''self'' \<notin> set (map fst kwargs)" and "PStr ''callback'' \<notin> set (map fst kwargs)"
  shows "passes_checks (PTuple [f, a, PDict kwargs])"
  using assms by (cases a) (simp_all add: passes_checks_def add_arguments_def bind_err_def)

lemma job_f_checks:
  "add_arguments job_f = Inr (PFun ''f'', [PInt 1], [])"
  "passes_checks job_f"
  "py_len job_f = Inr 3"
  by (simp_all add: passes_checks_def add_arguments_def bind_err_def job_f_def)

lemma add_to_one_pool: "add one_pool 0 (PFun ''f'') [PInt 1] [] = Inr one_job"
  by (simp add: one_job_def add_def put_def qsize_def bind_err_def one_pool_state Let_def)

lemma add_to_one_job: "add one_job 0 (PFun ''f'') [PInt 1] [] = Inl Full"
  by (simp add: add_def put_def qsize_def bind_err_def one_job_state one_pool_state Let_def)

lemma run_under_backpressure:
  "fst (consumer_run 0 [Own, Own, Own, Own, Own, Others one_pool, Own, Own]
          ([], NextItem [job_f, job_f], one_pool))
     = [Fed job_f, Slept, Slept, Fed job_f]"
  "fst (snd (consumer_run 0 [Own, Own, Own, Own, Own, Others one_pool, Own, Own]
          ([], NextItem [job_f, job_f], one_pool))) = Consumed"
  by (simp_all add: job_f_checks add_to_one_pool add_to_one_job)

lemma bad_jobs:
  "\<not> passes_checks job_pair"
  "py_len job_pair = Inr 2"
  "\<not> passes_checks job_bad_args"
  "py_len job_bad_args = Inr 3"
  "add_arguments job_bad_args = Inl TypeError"
  by (simp_all add: passes_checks_def add_arguments_def bind_err_def job_pair_def job_bad_args_def)

lemma runs_with_bad_jobs:
  "fed (fst (consumer_run 0 [Own, Own, Own, Others one_pool, Own, Own]
      ([], NextItem ([job_f] @ job_pair # [job_f]), one_pool))) = [job_f]"
  "fst (snd (consumer_run 0 [Own, Own, Own, Others one_pool, Own, Own]
      ([], NextItem ([job_f] @ job_pair # [job_f]), one_pool))) = Failed ValueError"
  "fed (fst (consumer_run 0 [Own, Own, Own, Others one_pool, Own, Own]
      ([], NextItem ([job_f] @ job_bad_args # [job_f]), one_pool))) = [job_f]"
  "fst (snd (consumer_run 0 [Own, Own, Own, Others one_pool, Own, Own]
      ([], NextItem ([job_f] @ job_bad_args # [job_f]), one_pool))) = Failed TypeError"
  by (simp_all add: job_f_checks bad_jobs add_to_one_pool add_to_one_job)

lemma job_5_checks:
  "py_len job_5 = Inr 3"
  "add_arguments job_5 = Inr (PInt 5, [], [])"
  by (simp_all add: add_arguments_def bind_err_def job_5_def)

lemma add_job_5:
  "add one_pool 0 (PInt 5) [] []
     = Inr (set_queue one_pool 0 \<lparr>maxsize = 1, queue_items = [job_5], unfinished_tasks = 1\<rparr>)"
  by (simp add: add_def put_def qsize_def bind_err_def one_pool_state job_5_def Let_def)

subsection \<open>C7: the consumer under backpressure\<close>

text \<open>
  C7: let every item of the source pass the consumer's checks. Under every schedule, with
  the other threads changing the queues in any way between the consumer's steps, the
  items the consumer has put on the queue followed by the items it still holds are the
  source: no item is dropped, doubled or taken out of order, however often \<^verbatim>\<open>add\<close> fails
  with \<^verbatim>\<open>Full\<close>, and the consumer never gives up. When \<^verbatim>\<open>add\<close> fails with \<^verbatim>\<open>Full\<close> the consumer
  sleeps and is back in the same loop with the same item and the rest of the source
  untouched; at the first attempt that finds room the item is put on the queue and the
  consumer moves on to the next one.
\<close>

theorem consumer_retries_until_accepted:
  "list_all passes_checks src \<Longrightarrow>
     fed (fst (consumer_run self ts ([], NextItem src, st)))
         @ unfed (fst (snd (consumer_run self ts ([], NextItem src, st)))) = src
     \<and> \<not> has_failed (fst (snd (consumer_run self ts ([], NextItem src, st))))
     \<and> (add_arguments job = Inr (callback, args, kwargs) \<and> add st' self callback args kwargs = Inl Full
          \<longrightarrow> consume self (Adding job rest) st' = ([Slept], Adding job rest, st'))
     \<and> (add_arguments job = Inr (callback, args, kwargs) \<and> add st' self callback args kwargs = Inr st''
          \<longrightarrow> consume self (Adding job rest) st' = ([Fed job], NextItem rest, st''))"
  using consumer_run_keeps_items [of "NextItem src" self ts "[]" st] by simp

theorem consumer_retries_until_accepted_witness:
  "list_all passes_checks [job_f, job_f]
   \<and> fed (fst (consumer_run 0 [Own, Own, Own, Own, Own, Others one_pool, Own, Own]
          ([], NextItem [job_f, job_f], one_pool)))
       @ unfed (fst (snd (consumer_run 0 [Own, Own, Own, Own, Own, Others one_pool, Own, Own]
          ([], NextItem [job_f, job_f], one_pool)))) = [job_f, job_f]
   \<and> fst (consumer_run 0 [Own, Own, Own, Own, Own, Others one_pool, Own, Own]
          ([], NextItem [job_f, job_f], one_pool)) = [Fed job_f, Slept, Slept, Fed job_f]
   \<and> (add_arguments job_f = Inr (PFun ''f'', [PInt 1], [])
        \<and> add one_job 0 (PFun ''f'') [PInt 1] [] = Inl Full)
   \<and> consume 0 (Adding job_f [job_f]) one_job = ([Slept], Adding job_f [job_f], one_job)
   \<and> (add_arguments job_f = Inr (PFun ''f'', [PInt 1], [])
        \<and> add one_pool 0 (PFun ''f'') [PInt 1] [] = Inr one_job)
   \<and> consume 0 (Adding job_f [job_f]) one_pool = ([Fed job_f], NextItem [job_f], one_job)"
proof -
  have w: "list_all passes_checks [job_f, job_f]" by (simp add: job_f_checks)
  have full: "add_arguments job_f = Inr (PFun ''f'', [PInt 1], [])
        \<and> add one_job 0 (PFun ''f'') [PInt 1] [] = Inl Full"
    by (simp add: job_f_checks add_to_one_job)
  have room: "add_arguments job_f = Inr (PFun ''f'', [PInt 1], [])
        \<and> add one_pool 0 (PFun ''f'') [PInt 1] [] = Inr one_job"
    by (simp add: job_f_checks add_to_one_pool)
  show ?thesis
    using w full room run_under_backpressure(1)
      consumer_retries_until_accepted [OF w, of 0
        "[Own, Own, Own, Own, Own, Others one_pool, Own, Own]" one_pool
        job_f "PFun ''f''" "[PInt 1]" "[]" one_job "[job_f]" one_job]
      consumer_retries_until_accepted [OF w, of 0
        "[Own, Own, Own, Own, Own, Others one_pool, Own, Own]" one_pool
        job_f "PFun ''f''" "[PInt 1]" "[]" one_pool "[job_f]" one_job]
    by blast
qed

subsection \<open>C6: items the consumer refuses\<close>

text \<open>
  C6, as the code has it. The consumer checks \<^verbatim>\<open>len(job) == 3\<close> and then makes the call
  \<^verbatim>\<open>self.add(job[0], *job[1], **job[2])\<close>; it never looks at whether \<^verbatim>\<open>job[0]\<close> can be called.
  For an item that does not pass these checks, the consumer fails before anything is put
  on the queue: at once with \<^verbatim>\<open>ValueError\<close> when the length is defined and is not 3 (or
  with the \<^verbatim>\<open>TypeError\<close> of \<^verbatim>\<open>len\<close>), or else at the call, whatever the state of the queues, with
  the error of the subscript or unpacking. The failure ends the consumer: it stays failed
  and emits nothing more. So in every run over a source \<open>pre @ job # rest\<close> the items put on
  the queue are at most those of \<open>pre\<close>: the item is never enqueued, and neither skipped,
  since nothing after it is enqueued.
\<close>

theorem consumer_rejects_unchecked_items:
  "\<not> passes_checks job \<Longrightarrow>
     ((\<exists>e. consume self (NextItem (job # rest)) st = ([], Failed e, st))
       \<or> (consume self (NextItem (job # rest)) st = ([], Adding job rest, st)
           \<and> (\<forall>st'. \<exists>e. consume self (Adding job rest) st' = ([], Failed e, st'))))
     \<and> fst (consumer_run self ts (evs, Failed e', st'')) = evs
     \<and> fst (snd (consumer_run self ts (evs, Failed e', st''))) = Failed e'
     \<and> prefix (fed (fst (consumer_run self ts' ([], NextItem (pre @ job # rest), st0)))) pre
     \<and> (py_len job = Inr n \<and> n \<noteq> 3
          \<longrightarrow> consume self (NextItem (job # rest)) st = ([], Failed ValueError, st))"
proof -
  assume bad: "\<not> passes_checks job"
  let ?fed = "fed (fst (consumer_run self ts' ([], NextItem (pre @ job # rest), st0)))"
  have run: "list_all passes_checks ?fed \<and> prefix ?fed (pre @ job # rest)"
    using consumer_run_feeds_checked [of "[]" "pre @ job # rest" "NextItem (pre @ job # rest)" self ts' st0]
    by simp
  have a: "prefix ?fed pre"
    by (rule checked_prefix_stops [of passes_checks ?fed pre job rest])
      (simp_all add: run bad)
  have b: "(\<exists>e. consume self (NextItem (job # rest)) st = ([], Failed e, st))
       \<or> (consume self (NextItem (job # rest)) st = ([], Adding job rest, st)
           \<and> (\<forall>st'. \<exists>e. consume self (Adding job rest) st' = ([], Failed e, st')))"
    by (rule consume_rejects [OF bad])
  have c: "fst (consumer_run self ts (evs, Failed e', st'')) = evs
     \<and> fst (snd (consumer_run self ts (evs, Failed e', st''))) = Failed e'"
    by (rule consumer_run_Failed)
  have d: "py_len job = Inr n \<and> n \<noteq> 3
      \<longrightarrow> consume self (NextItem (job # rest)) st = ([], Failed ValueError, st)"
    by simp
  show ?thesis
    by (intro conjI) (rule b, simp add: c, simp add: c, rule a, rule d)
qed

theorem consumer_rejects_unchecked_items_witness:
  "\<not> passes_checks job_pair
   \<and> consume 0 (NextItem (job_pair # [job_f])) one_pool = ([], Failed ValueError, one_pool)
   \<and> fst (consumer_run 0 [Own, Others one_job, Own] ([Fed job_f], Failed ValueError, one_pool))
       = [Fed job_f]
   \<and> fst (snd (consumer_run 0 [Own, Others one_job, Own] ([Fed job_f], Failed ValueError, one_pool)))
       = Failed ValueError
   \<and> prefix (fed (fst (consumer_run 0 [Own, Own, Own, Others one_pool, Own, Own]
        ([], NextItem ([job_f] @ job_pair # [job_f]), one_pool)))) [job_f]
   \<and> fed (fst (consumer_run 0 [Own, Own, Own, Others one_pool, Own, Own]
        ([], NextItem ([job_f] @ job_pair # [job_f]), one_pool))) = [job_f]
   \<and> \<not> passes_checks job_bad_args
   \<and> consume 0 (NextItem (job_bad_args # [job_f])) one_pool = ([], Adding job_bad_args [job_f], one_pool)
   \<and> consume 0 (Adding job_bad_args [job_f]) one_job = ([], Failed TypeError, one_job)
   \<and> prefix (fed (fst (consumer_run 0 [Own, Own, Own, Others one_pool, Own, Own]
        ([], NextItem ([job_f] @ job_bad_args # [job_f]), one_pool)))) [job_f]"
proof -
  have l: "py_len job_pair = Inr 2 \<and> (2::nat) \<noteq> 3" by (simp add: bad_jobs)
  have s1: "consume 0 (NextItem (job_bad_args # [job_f])) one_pool
      = ([], Adding job_bad_args [job_f], one_pool)"
    by (simp add: bad_jobs)
  have s2: "consume 0 (Adding job_bad_args [job_f]) one_job = ([], Failed TypeError, one_job)"
    by (simp add: bad_jobs)
  show ?thesis
    using bad_jobs(1,3) l s1 s2 runs_with_bad_jobs(1)
      consumer_rejects_unchecked_items [OF bad_jobs(1), of 0 "[job_f]" one_pool
        "[Own, Others one_job, Own]" "[Fed job_f]" ValueError one_pool
        "[Own, Own, Own, Others one_pool, Own, Own]" "[job_f]" one_pool 2]
      consumer_rejects_unchecked_items [OF bad_jobs(3), of 0 "[job_f]" one_pool
        "[Own, Others one_job, Own]" "[Fed job_f]" ValueError one_pool
        "[Own, Own, Own, Others one_pool, Own, Own]" "[job_f]" one_pool 3]
    by blast
qed

text \<open>
  C6 as stated speaks of every item that is not a valid callable/positional-args/
  keyword-args triple. The triple \<^verbatim>\<open>(5, (), {})\<close> is not one, the integer 5 is no callable,
  and the consumer puts it on the queue without an error.
\<close>

theorem consumer_feeds_non_callable:
  "\<not> spec_valid_job job_5
   \<and> fst (consumer_run 0 [Own, Own, Own] ([], NextItem [job_5], one_pool)) = [Fed job_5]
   \<and> fst (snd (consumer_run 0 [Own, Own, Own] ([], NextItem [job_5], one_pool))) = Consumed
   \<and> queue_items (queues (snd (snd (consumer_run 0 [Own, Own, Own] ([], NextItem [job_5], one_pool)))) 0)
       = [job_5]"
  by (simp add: job_5_checks add_job_5) (simp add: job_5_def set_queue_def)

subsection \<open>Helper lemmas on forwarding\<close>

lemma forward_pools:
  "pools (snd (forward st a b)) p =
     (if p = b then (if a = b then (pools st a)\<lparr>queue_out := Some (next_queue st), queue := next_queue st\<rparr>
                     else (pools st b)\<lparr>queue := next_queue st\<rparr>)
      else if p = a then (pools st a)\<lparr>queue_out := Some (next_queue st)\<rparr>
      else pools st p)"
  by (simp add: forward.simps new_Queue_def set_pool_def Let_def)

lemma put_on_new_Queue:
  "put (Queue n) v t = Inr \<lparr>maxsize = n, queue_items = [v], unfinished_tasks = 1\<rparr>"
  by (simp add: put_def Queue_def qsize_def)

lemma three_pools_state:
  "pools three_pools 0 = \<lparr>pool_size = 2, pool = [], queue = 0, queue_capacity = 1,
     queue_timeout = 1 / 2, source = None, queue_out = None, start_time = None, end_time = None\<rparr>"
  "pools three_pools 1 = \<lparr>pool_size = 2, pool = [], queue = 1, queue_capacity = 2,
     queue_timeout = 1 / 2, source = None, queue_out = None, start_time = None, end_time = None\<rparr>"
  "pools three_pools 2 = \<lparr>pool_size = 2, pool = [], queue = 2, queue_capacity = 3,
     queue_timeout = 1 / 2, source = None, queue_out = None, start_time = None, end_time = None\<rparr>"
  "next_queue three_pools = 3"
  "next_pool three_pools = 3"
  by (simp_all add: three_pools_def one_pool_def store_defs)

lemma pipeline_fed_state:
  "pools pipeline_fed 1 = pools pipeline 1"
  "queues pipeline_fed 3 = \<lparr>maxsize = 1, queue_items = [PInt 7], unfinished_tasks = 1\<rparr>"
  by (simp_all add: pipeline_fed_def pipeline_state put_def qsize_def set_queue_def)

lemma forward_chain_other_pools:
  "p \<notin> set ps \<Longrightarrow> pools (forward_chain st ps) p = pools st p"
  by (induction st ps rule: forward_chain.induct) (simp_all add: forward_pools)

lemma forward_chain_head_queue:
  "a \<notin> set ps \<Longrightarrow> queue (pools (forward_chain st (a # ps)) a) = queue (pools st a)"
proof (cases ps)
  case Nil
  then show ?thesis by simp
next
  case (Cons b ps')
  assume "a \<notin> set ps"
  then have "a \<notin> set (b # ps')" and "a \<noteq> b" using Cons by auto
  then show ?thesis using Cons
    by (simp add: forward_chain_other_pools forward_pools)
qed

lemma forward_chain_wires:
  "distinct ps \<Longrightarrow> Suc i < length ps \<Longrightarrow>
     queue_out (pools (forward_chain st ps) (ps ! i)) = Some (next_queue st + i)
     \<and> queue (pools (forward_chain st ps) (ps ! Suc i)) = next_queue st + i"
proof (induction st ps arbitrary: i rule: forward_chain.induct)
  case (1 st a b ps)
  let ?st1 = "snd (forward st a b)"
  show ?case
  proof (cases i)
    case 0
    have "a \<notin> set (b # ps)" and "b \<notin> set ps" and "a \<noteq> b" using "1.prems"(1) by auto
    then have "pools (forward_chain ?st1 (b # ps)) a = pools ?st1 a"
      and "queue (pools (forward_chain ?st1 (b # ps)) b) = queue (pools ?st1 b)"
      using forward_chain_other_pools forward_chain_head_queue by blast+
    then show ?thesis using 0 \<open>a \<noteq> b\<close> by (simp add: forward_pools)
  next
    case (Suc j)
    have "distinct (b # ps)" and "Suc j < length (b # ps)" using "1.prems" Suc by auto
    then have "queue_out (pools (forward_chain ?st1 (b # ps)) ((b # ps) ! j)) = Some (next_queue ?st1 + j)
       \<and> queue (pools (forward_chain ?st1 (b # ps)) ((b # ps) ! Suc j)) = next_queue ?st1 + j"
      using "1.IH" by blast
    then show ?thesis using Suc by (simp add: forward_store)
  qed
qed simp_all

lemma infix_chain_state:
  "fst (rshift three_pools 0 1) = 0"
  "queue_out (pools (snd (rshift three_pools 0 1)) 0) = Some 3"
  "queue (pools (snd (rshift three_pools 0 1)) 1) = 3"
  "queue_out (pools infix_chain 0) = Some 4"
  "queue (pools infix_chain 1) = 3"
  "queue_out (pools infix_chain 1) = None"
  "queue (pools infix_chain 2) = 4"
  by (simp_all add: infix_chain_def rshift3_def rshift_def forward_pools forward_store
      three_pools_state split_beta del: One_nat_def)

subsection \<open>C3: chains of pools\<close>

text \<open>
  C3, as the code has it: forward each pool of a list of pairwise distinct pools to the
  next one, \<^verbatim>\<open>p0.forward(p1); p1.forward(p2); ...\<close>, for a list of any length. Afterwards the
  output queue of every pool is the input queue of its successor, and the queue between
  stage \<open>i\<close> and stage \<open>i + 1\<close> is the \<open>i\<close>-th queue created: every stage has a queue of its
  own and no later step has undone an earlier wiring.
\<close>

theorem forward_chain_builds_pipeline:
  "distinct ps \<Longrightarrow> Suc i < length ps \<Longrightarrow>
     queue_out (pools (forward_chain st ps) (ps ! i))
       = Some (queue (pools (forward_chain st ps) (ps ! Suc i)))
     \<and> queue (pools (forward_chain st ps) (ps ! Suc i)) = next_queue st + i"
  using forward_chain_wires [of ps i st] by simp

theorem forward_chain_builds_pipeline_witness:
  "distinct [0, 1, 2::nat] \<and> Suc 0 < length [0, 1, 2::nat] \<and> Suc 1 < length [0, 1, 2::nat]
   \<and> queue_out (pools (forward_chain three_pools [0, 1, 2]) ([0, 1, 2] ! 0))
       = Some (queue (pools (forward_chain three_pools [0, 1, 2]) ([0, 1, 2] ! Suc 0)))
   \<and> queue (pools (forward_chain three_pools [0, 1, 2]) ([0, 1, 2] ! Suc 0)) = next_queue three_pools + 0
   \<and> queue_out (pools (forward_chain three_pools [0, 1, 2]) ([0, 1, 2] ! 1))
       = Some (queue (pools (forward_chain three_pools [0, 1, 2]) ([0, 1, 2] ! Suc 1)))
   \<and> queue (pools (forward_chain three_pools [0, 1, 2]) ([0, 1, 2] ! Suc 1)) = next_queue three_pools + 1
   \<and> queue (pools (forward_chain three_pools [0, 1, 2]) 1) = 3
   \<and> queue (pools (forward_chain three_pools [0, 1, 2]) 2) = 4"
proof -
  have d: "distinct [0, 1, 2::nat]" by simp
  have l0: "Suc 0 < length [0, 1, 2::nat]" by simp
  have l1: "Suc 1 < length [0, 1, 2::nat]" by simp
  have q: "queue (pools (forward_chain three_pools [0, 1, 2]) 1) = 3
      \<and> queue (pools (forward_chain three_pools [0, 1, 2]) 2) = 4"
    using forward_chain_builds_pipeline [OF d l0, of three_pools]
      forward_chain_builds_pipeline [OF d l1, of three_pools]
    by (simp add: three_pools_state)
  show ?thesis
    using d l0 l1 q forward_chain_builds_pipeline [OF d l0, of three_pools]
      forward_chain_builds_pipeline [OF d l1, of three_pools]
    by blast
qed

text \<open>
  C3 as stated has \<^verbatim>\<open>a >> b >> c\<close> build this chain. Python reads it as \<^verbatim>\<open>(a >> b) >> c\<close> and
  \<^verbatim>\<open>>>\<close> returns its left operand, so the second step is \<^verbatim>\<open>a.forward(c)\<close>: on the three pools
  it replaces pool 0's output queue 3 by queue 4, the input of pool 2, while pool 1 keeps
  queue 3 as its input, which nobody writes to any more, and has no output queue.
\<close>

theorem infix_chain_rewires_first_pool:
  "queue_out (pools infix_chain 0) \<noteq> Some (queue (pools infix_chain 1))
   \<and> queue_out (pools infix_chain 1) \<noteq> Some (queue (pools infix_chain 2))
   \<and> queue_out (pools infix_chain 1) = None
   \<and> queue_out (pools (snd (rshift three_pools 0 1)) 0) = Some 3
   \<and> queue_out (pools infix_chain 0) = Some 4
   \<and> queue (pools infix_chain 2) = 4
   \<and> queue (pools infix_chain 1) = 3"
  by (simp add: infix_chain_state del: One_nat_def)

subsection \<open>Helper lemmas on the in-flight count\<close>

lemma in_flight_update:
  "i < length ws \<Longrightarrow> in_flight (ws[i := w]) = in_flight ws - holds (ws ! i) + holds w"
  unfolding in_flight_def
proof (induction ws arbitrary: i)
  case Nil
  then show ?case by simp
next
  case (Cons x xs)
  then show ?case by (cases i) simp_all
qed

lemma in_flight_member: "i < length ws \<Longrightarrow> holds (ws ! i) \<le> in_flight ws"
  unfolding in_flight_def
proof (induction ws arbitrary: i)
  case Nil
  then show ?case by simp
next
  case (Cons x xs)
  have nonneg: "\<And>ys. 0 \<le> sum_list (map holds ys)"
    by (rule sum_list_nonneg) (auto simp: holds_def)
  have "0 \<le> holds x" by (simp add: holds_def)
  then show ?case using Cons nonneg [of xs] by (cases i) (auto intro: add_increasing)
qed

lemma thread_run_count:
  assumes "thread_run run_job self w st = (evs, w', st')"
    and "queue_out (pools st self) \<noteq> Some (queue (pools st self))"
    and "holds w \<le> unfinished_tasks (queues st (queue (pools st self)))"
  shows "pools st' = pools st
     \<and> unfinished_tasks (queues st' (queue (pools st self))) - qsize (queues st' (queue (pools st self)))
         - holds w'
       = unfinished_tasks (queues st (queue (pools st self))) - qsize (queues st (queue (pools st self)))
         - holds w"
proof (cases w)
  case AtGet
  then show ?thesis using assms(1)
    by (auto simp: Let_def get_def set_queue_def qsize_def holds_def except_Empty_def
        split: list.splits if_splits)
next
  case (Running job)
  then show ?thesis using assms(1)
    by (auto simp: holds_def split: sum.splits option.splits)
next
  case (Forwarding r)
  then show ?thesis using assms(1,2)
    by (auto simp: holds_def set_queue_def split: sum.splits option.splits)
next
  case (Finally p)
  then show ?thesis using assms(1,3)
    by (auto simp: Let_def task_done_def set_queue_def qsize_def holds_def except_Empty_def
        split: option.splits if_splits)
next
  case Exited
  then show ?thesis using assms(1) by auto
next
  case (Died e)
  then show ?thesis using assms(1) by auto
qed

lemma add_count:
  assumes "add st self callback args kwargs = Inr st'"
  shows "pools st' = pools st
     \<and> unfinished_tasks (queues st' (queue (pools st self))) - qsize (queues st' (queue (pools st self)))
       = unfinished_tasks (queues st (queue (pools st self))) - qsize (queues st (queue (pools st self)))"
  using assms
  by (auto simp: add_def put_def bind_err_def set_queue_def qsize_def Let_def split: if_splits)

lemma pool_run_count:
  "queue_out (pools st self) \<noteq> Some (queue (pools st self)) \<Longrightarrow> count_accurate self ws st \<Longrightarrow>
     count_accurate self (fst (pool_run run_job self ms (ws, st))) (snd (pool_run run_job self ms (ws, st)))"
proof (induction ms arbitrary: ws st)
  case Nil
  then show ?case by simp
next
  case (Cons m ms)
  show ?case
  proof (cases m)
    case (Step i)
    show ?thesis
    proof (cases "i < length ws")
      case True
      obtain evs w' st' where step: "thread_run run_job self (ws ! i) st = (evs, w', st')"
        by (cases "thread_run run_job self (ws ! i) st") auto
      have q: "0 \<le> qsize (queues st (queue (pools st self)))" by (simp add: qsize_def)
      have "holds (ws ! i) \<le> unfinished_tasks (queues st (queue (pools st self)))"
        using in_flight_member [OF True] Cons.prems(2) q by (simp add: count_accurate_def)
      from thread_run_count [OF step Cons.prems(1) this]
      have p: "pools st' = pools st"
        and c: "unfinished_tasks (queues st' (queue (pools st self)))
            - qsize (queues st' (queue (pools st self))) - holds w'
          = unfinished_tasks (queues st (queue (pools st self)))
            - qsize (queues st (queue (pools st self))) - holds (ws ! i)"
        by simp_all
      have "count_accurate self (ws[i := w']) st'"
        using Cons.prems(2) c p in_flight_update [OF True, of w']
        by (simp add: count_accurate_def)
      moreover have "queue_out (pools st' self) \<noteq> Some (queue (pools st' self))"
        using Cons.prems(1) p by simp
      ultimately show ?thesis using Cons.IH Step True step by simp
    next
      case False
      then show ?thesis using Cons Step by simp
    qed
  next
    case (Enqueue callback args kwargs)
    show ?thesis
    proof (cases "add st self callback args kwargs")
      case (Inl e)
      then show ?thesis using Cons Enqueue by simp
    next
      case (Inr st')
      from add_count [OF Inr]
      have "count_accurate self ws st'" and "queue_out (pools st' self) \<noteq> Some (queue (pools st' self))"
        using Cons.prems by (simp_all add: count_accurate_def)
      then show ?thesis using Cons.IH Enqueue Inr by simp
    qed
  qed
qed

lemma Finally_calls_task_done:
  "fst (thread_run run_job self (Finally pending) st) = [TaskDone]
   \<and> (0 < unfinished_tasks (queues st (queue (pools st self))) \<longrightarrow>
        queues (snd (snd (thread_run run_job self (Finally pending) st))) (queue (pools st self))
          = (queues st (queue (pools st self)))
              \<lparr>unfinished_tasks := unfinished_tasks (queues st (queue (pools st self))) - 1\<rparr>)"
  by (auto simp: Let_def task_done_def set_queue_def split: sum.splits)

lemma only_Finally_marks_done:
  "(\<forall>p. w \<noteq> Finally p) \<Longrightarrow> TaskDone \<notin> set (fst (thread_run run_job self w st))"
  by (cases w) (auto simp: Let_def split: sum.splits prod.splits option.splits)


lemma two_workers_run:
  "fst (pool_run failing 0 [Step 0, Step 1, Step 0, Step 0] ([AtGet, AtGet], one_job))
     = [Died (JobFailure ''boom''), Exited]"
  "queues (snd (pool_run failing 0 [Step 0, Step 1, Step 0, Step 0] ([AtGet, AtGet], one_job))) 0
     = \<lparr>maxsize = 1, queue_items = [], unfinished_tasks = 0\<rparr>"
  "pools (snd (pool_run failing 0 [Step 0, Step 1, Step 0, Step 0] ([AtGet, AtGet], one_job))) 0
     = pools one_pool 0"
  by (simp_all add: one_job_state one_pool_state get_def task_done_def failing_def
      except_Empty_def set_queue_def Let_def)

subsection \<open>C5: one \<^verbatim>\<open>task_done\<close> per dequeued job\<close>

text \<open>
  C5. First, under every schedule, whenever a worker that started at the head of its loop
  holds no job (it is back at the head of the loop, has exited, or has died from an
  exception), its events so far are complete iterations: every job it dequeued was
  executed and then marked done exactly once, after the execution and after the attempt
  to forward the result. This includes the job whose callable raised and the job whose
  result the downstream queue refused (\<^verbatim>\<open>Full\<close>). Second, the event is the call: the step in
  the \<^verbatim>\<open>finally\<close> clause emits \<open>TaskDone\<close> and calls \<^verbatim>\<open>task_done\<close> on the input queue, which
  lowers \<^verbatim>\<open>unfinished_tasks\<close> by one, whatever exception is in flight; no other step of a
  worker emits \<open>TaskDone\<close>. Third, the count stays accurate: for any number of workers of
  a pool (whose output queue is not its own input queue) and any sequence of their steps
  and of added jobs, if \<^verbatim>\<open>unfinished_tasks\<close> of the input queue was the number of queued
  items plus the number of jobs held by workers, it still is.
\<close>

theorem task_done_once_per_job:
  "(between_jobs (fst (snd (worker_run run_job self ts ([], AtGet, st))))
      \<longrightarrow> accounted (fst (worker_run run_job self ts ([], AtGet, st))))
   \<and> fst (thread_run run_job self (Finally pending) st1) = [TaskDone]
   \<and> (0 < unfinished_tasks (queues st1 (queue (pools st1 self))) \<longrightarrow>
        queues (snd (snd (thread_run run_job self (Finally pending) st1))) (queue (pools st1 self))
          = (queues st1 (queue (pools st1 self)))
              \<lparr>unfinished_tasks := unfinished_tasks (queues st1 (queue (pools st1 self))) - 1\<rparr>)
   \<and> ((\<forall>p. w \<noteq> Finally p) \<longrightarrow> TaskDone \<notin> set (fst (thread_run run_job self w st2)))
   \<and> (queue_out (pools st3 self) \<noteq> Some (queue (pools st3 self)) \<and> count_accurate self ws st3
        \<longrightarrow> count_accurate self (fst (pool_run run_job self ms (ws, st3)))
              (snd (pool_run run_job self ms (ws, st3))))"
proof -
  have a: "between_jobs (fst (snd (worker_run run_job self ts ([], AtGet, st))))
      \<longrightarrow> accounted (fst (worker_run run_job self ts ([], AtGet, st)))"
  proof
    assume b: "between_jobs (fst (snd (worker_run run_job self ts ([], AtGet, st))))"
    obtain evs w st' where r: "worker_run run_job self ts ([], AtGet, st) = (evs, w, st')"
      by (cases "worker_run run_job self ts ([], AtGet, st)") auto
    have "worker_invariant AtGet []" by (simp add: worker_invariant_def)
    then have "worker_invariant w evs" using worker_run_invariant r by blast
    then obtain past cur where "evs = past @ cur" "accounted past" "in_iteration w cur"
      by (auto simp: worker_invariant_def)
    then have "accounted evs" using b r by (cases w) auto
    then show "accounted (fst (worker_run run_job self ts ([], AtGet, st)))" using r by simp
  qed
  show ?thesis
    using a Finally_calls_task_done [of run_job self pending st1]
      only_Finally_marks_done [of w run_job self st2]
      pool_run_count [of st3 self ws run_job ms]
    by blast
qed

theorem task_done_once_per_job_witness:
  "between_jobs (fst (snd (worker_run failing 0 [Own, Own, Own] ([], AtGet, one_job))))
   \<and> accounted (fst (worker_run failing 0 [Own, Own, Own] ([], AtGet, one_job)))
   \<and> fst (worker_run failing 0 [Own, Own, Own] ([], AtGet, one_job))
       = [Dequeued job_f, Executed job_f, TaskDone]
   \<and> between_jobs (fst (snd (worker_run echo 0 [Own, Own, Own, Own] ([], AtGet, pipeline_full))))
   \<and> accounted (fst (worker_run echo 0 [Own, Own, Own, Own] ([], AtGet, pipeline_full)))
   \<and> fst (snd (worker_run echo 0 [Own, Own, Own, Own] ([], AtGet, pipeline_full))) = Died Full
   \<and> 0 < unfinished_tasks (queues one_job (queue (pools one_job 0)))
   \<and> queues (snd (snd (thread_run failing 0 (Finally (Some Full)) one_job))) (queue (pools one_job 0))
       = (queues one_job (queue (pools one_job 0)))
           \<lparr>unfinished_tasks := unfinished_tasks (queues one_job (queue (pools one_job 0))) - 1\<rparr>
   \<and> (\<forall>p. Running job_f \<noteq> Finally p)
   \<and> TaskDone \<notin> set (fst (thread_run failing 0 (Running job_f) one_job))
   \<and> (queue_out (pools one_job 0) \<noteq> Some (queue (pools one_job 0))
        \<and> count_accurate 0 [AtGet, AtGet] one_job)
   \<and> count_accurate 0 (fst (pool_run failing 0 [Step 0, Step 1, Step 0, Step 0] ([AtGet, AtGet], one_job)))
        (snd (pool_run failing 0 [Step 0, Step 1, Step 0, Step 0] ([AtGet, AtGet], one_job)))
   \<and> unfinished_tasks (queues (snd (pool_run failing 0 [Step 0, Step 1, Step 0, Step 0]
        ([AtGet, AtGet], one_job))) 0) = 0"
proof -
  have b1: "between_jobs (fst (snd (worker_run failing 0 [Own, Own, Own] ([], AtGet, one_job))))"
    by (simp only: run_of_failing_job between_jobs.simps)
  have b2: "between_jobs (fst (snd (worker_run echo 0 [Own, Own, Own, Own] ([], AtGet, pipeline_full))))"
    by (simp only: run_of_refused_result between_jobs.simps)
  have u: "0 < unfinished_tasks (queues one_job (queue (pools one_job 0)))"
    by (simp add: one_job_state one_pool_state)
  have f: "\<forall>p. Running job_f \<noteq> Finally p" by simp
  have c: "queue_out (pools one_job 0) \<noteq> Some (queue (pools one_job 0))
        \<and> count_accurate 0 [AtGet, AtGet] one_job"
    by (simp add: count_accurate_def in_flight_def holds_def qsize_def one_job_state one_pool_state)
  have z: "unfinished_tasks (queues (snd (pool_run failing 0 [Step 0, Step 1, Step 0, Step 0]
        ([AtGet, AtGet], one_job))) 0) = 0"
    by (simp only: two_workers_run) simp
  show ?thesis
    using b1 b2 u f c z run_of_failing_job run_of_refused_result
      task_done_once_per_job [of failing 0 "[Own, Own, Own]" one_job "Some Full" one_job
        "Running job_f" one_job one_job "[AtGet, AtGet]" "[Step 0, Step 1, Step 0, Step 0]"]
      task_done_once_per_job [of echo 0 "[Own, Own, Own, Own]" pipeline_full "Some Full" one_job
        "Running job_f" one_job one_job "[AtGet, AtGet]" "[Step 0, Step 1, Step 0, Step 0]"]
    by blast
qed

subsection \<open>Helper lemmas on a pool and the queue of its constructor\<close>

lemma own_queue_same_pools:
  "pools st' = pools st \<Longrightarrow> next_pool st' = next_pool st \<Longrightarrow> queue_step st st' \<Longrightarrow>
     own_queue p q capacity st \<Longrightarrow> own_queue p q capacity st'"
  by (auto simp: own_queue_def queue_step_def)

lemma own_queue_same_wiring:
  "queue (pools st' p) = queue (pools st p) \<Longrightarrow>
   queue_capacity (pools st' p) = queue_capacity (pools st p) \<Longrightarrow>
   next_pool st \<le> next_pool st' \<Longrightarrow> queue_step st st' \<Longrightarrow>
     own_queue p q capacity st \<Longrightarrow> own_queue p q capacity st'"
  by (auto simp: own_queue_def queue_step_def)

lemma forward_wiring:
  "b \<noteq> p \<Longrightarrow> queue (pools (snd (forward st a b)) p) = queue (pools st p)"
  "queue_capacity (pools (snd (forward st a b)) p) = queue_capacity (pools st p)"
  by (simp_all add: forward_pools)

lemma set_source_wiring:
  "\<not> rewires p (SetSource p' src) \<Longrightarrow>
     queue (pools (set_source st p' src) p) = queue (pools st p)"
  "queue_capacity (pools (set_source st p' src) p) = queue_capacity (pools st p)"
  by (cases src; simp add: forward_wiring set_pool_def)+

lemma ThreadPool_wiring:
  assumes "p < next_pool st"
  shows "queue (pools (snd (ThreadPool st psize src capacity timeout)) p) = queue (pools st p)"
    and "queue_capacity (pools (snd (ThreadPool st psize src capacity timeout)) p)
      = queue_capacity (pools st p)"
    and "next_pool (snd (ThreadPool st psize src capacity timeout)) = Suc (next_pool st)"
  using assms
  by (cases src; simp add: ThreadPool_def Let_def new_Queue_def set_pool_def forward_pools
      forward_store)+

lemma ThreadPool_own_queue:
  assumes "src = NoSource \<or> src = IterSource xs"
  shows "own_queue (next_pool st) (next_queue st) capacity (snd (ThreadPool st psize src capacity timeout))"
    and "queues (snd (ThreadPool st psize src capacity timeout)) (next_queue st) = Queue capacity"
  using assms
  by (auto simp: own_queue_def ThreadPool_def Let_def new_Queue_def set_pool_def)

lemma own_queue_perform:
  assumes "own_queue p q capacity st" and "\<not> rewires p a"
  shows "own_queue p q capacity (perform run_job a st)"
proof -
  have qs: "queue_step st (perform run_job a st)" by (rule queue_step_perform)
  have lt: "p < next_pool st" using assms(1) by (simp add: own_queue_def)
  show ?thesis
  proof (cases a)
    case (Construct psize src capacity' timeout)
    then show ?thesis
      using own_queue_same_wiring [OF ThreadPool_wiring(1,2) [OF lt] _ _ assms(1)]
        ThreadPool_wiring(3) [OF lt] qs by simp
  next
    case (Add p' callback args kwargs)
    then show ?thesis using assms(1) qs
      by (auto split: sum.splits dest!: add_pools intro: own_queue_same_pools)
  next
    case (Forward a' b)
    then have "b \<noteq> p" using assms(2) by simp
    then show ?thesis
      using Forward qs assms(1) forward_wiring(1) [of b p st a'] forward_wiring(2) [of st a' b p]
        forward_store(3) [of st a' b]
      by (auto intro: own_queue_same_wiring)
  next
    case (SetSource p' src)
    then show ?thesis
      using qs assms set_source_wiring(1) [of p p' src st] set_source_wiring(2) [of st p' src p]
        set_source_start_time(2) [of st p' src]
      by (auto intro: own_queue_same_wiring)
  next
    case (Start p' now)
    then show ?thesis using qs assms(1)
      by (auto simp: start_def set_pool_def intro!: own_queue_same_wiring [OF _ _ _ _ assms(1)])
  next
    case (Run p' now)
    then show ?thesis using qs assms(1)
      by (auto simp: run_def build_pool_def start_def set_pool_def Let_def split: option.splits
          intro!: own_queue_same_wiring [OF _ _ _ _ assms(1)])
  next
    case (Finish p' now)
    then show ?thesis using qs assms(1)
      by (auto simp: finish_def set_pool_def Let_def split: option.splits
          intro!: own_queue_same_wiring [OF _ _ _ _ assms(1)])
  next
    case (Wait p' now)
    then show ?thesis using qs assms(1)
      by (auto simp: wait_def finish_def set_pool_def Let_def split: option.splits
          intro!: own_queue_same_wiring [OF _ _ _ _ assms(1)])
  next
    case (WorkerStep p' w)
    then show ?thesis using qs assms(1) thread_run_pools [of run_job p' w st]
      by (auto intro: own_queue_same_pools)
  next
    case (ConsumerStep p' c)
    then show ?thesis using qs assms(1) consume_pools [of p' c st]
      by (auto intro: own_queue_same_pools)
  qed
qed

lemma own_queue_execute:
  "own_queue p q capacity st \<Longrightarrow> list_all (\<lambda>a. \<not> rewires p a) acts \<Longrightarrow>
     own_queue p q capacity (execute run_job acts st)"
proof (induction acts arbitrary: st)
  case Nil
  then show ?case by simp
next
  case (Cons a acts)
  then show ?case using own_queue_perform [of p q capacity st a run_job] by simp
qed

lemma constructed_queue_bound:
  assumes "src = NoSource \<or> src = IterSource xs" and "list_all (\<lambda>a. \<not> rewires (next_pool st0) a) acts"
    and "0 < capacity"
  shows "queue_capacity (pools (execute run_job acts (snd (ThreadPool st0 psize src capacity timeout)))
            (next_pool st0)) = capacity
     \<and> qsize (queues (execute run_job acts (snd (ThreadPool st0 psize src capacity timeout)))
          (queue (pools (execute run_job acts (snd (ThreadPool st0 psize src capacity timeout)))
             (next_pool st0))))
        \<le> capacity"
proof -
  let ?st1 = "snd (ThreadPool st0 psize src capacity timeout)"
  let ?st = "execute run_job acts ?st1"
  have o1: "own_queue (next_pool st0) (next_queue st0) capacity ?st1"
    and q1: "queues ?st1 (next_queue st0) = Queue capacity"
    using ThreadPool_own_queue [OF assms(1)] by simp_all
  have o: "own_queue (next_pool st0) (next_queue st0) capacity ?st"
    using own_queue_execute [OF o1 assms(2)] .
  have qs: "queue_step ?st1 ?st" by (rule queue_step_execute)
  have "next_queue st0 < next_queue ?st1" using o1 by (simp add: own_queue_def)
  then have m: "maxsize (queues ?st (next_queue st0)) = capacity"
    and w: "within_capacity (queues ?st (next_queue st0))"
    using qs q1 within_capacity_Queue [of capacity] by (auto simp: queue_step_def Queue_def)
  have "qsize (queues ?st (next_queue st0)) \<le> capacity"
    using m w assms(3) by (simp add: within_capacity_def)
  then show ?thesis using o by (simp add: own_queue_def)
qed

lemma forward_queue_capacity:
  "maxsize (queues (snd (forward st a b)) (queue (pools (snd (forward st a b)) b)))
     = queue_capacity (pools st a)"
  by (simp add: forward_pools forward_store Queue_def)


lemma rewired_state:
  "queue_capacity (pools rewired 0) = 1"
  "queue (pools rewired 0) = 3"
  "queues rewired 3
     = \<lparr>maxsize = 3,
        queue_items = [PTuple [PFun ''f'', PTuple [PInt 1], PDict []], PTuple [PFun ''g'', PTuple [], PDict []]],
        unfinished_tasks = 2\<rparr>"
  by (simp_all add: rewired_def forward_pools forward_store three_pools_state add_def put_def
      qsize_def bind_err_def set_queue_def Queue_def Let_def)

subsection \<open>C4: a bounded queue never holds more than its capacity\<close>

text \<open>
  C4, as the code has it. A queue is created with its capacity and keeps it. Let the
  program and its threads make any sequence of calls: constructors, \<^verbatim>\<open>add\<close>, \<^verbatim>\<open>forward\<close>,
  \<^verbatim>\<open>set_source\<close>, \<^verbatim>\<open>start\<close>, \<^verbatim>\<open>run\<close>, \<^verbatim>\<open>wait\<close>, steps of workers and of consumers. If all queues
  were within their capacities before (in the empty store they are), every bounded queue
  (\<^verbatim>\<open>maxsize > 0\<close>) holds at most \<^verbatim>\<open>maxsize\<close> items in every state on the way; every queue
  that existed still has the capacity it had; and a \<^verbatim>\<open>put\<close> that finds a bounded queue at
  its capacity fails with \<^verbatim>\<open>Full\<close> and stores nothing. Each call is one step, so a state
  between two steps is a state of the theorem: there is no overshoot in between.

  For a pool: the constructor creates the input queue with the pool's \<^verbatim>\<open>queue_capacity\<close>.
  For a pool constructed without a queue or pool as its source and with a positive
  \<^verbatim>\<open>queue_capacity\<close>, after any sequence of calls that does not give the pool another input
  queue (no \<^verbatim>\<open>forward\<close> to it, no \<^verbatim>\<open>set_source\<close> with a queue or a pool on it), the input
  queue never holds more than the pool's \<^verbatim>\<open>queue_capacity\<close>. \<^verbatim>\<open>a.forward(b)\<close> gives \<^verbatim>\<open>b\<close> an input
  queue created with \<^verbatim>\<open>a\<close>'s \<^verbatim>\<open>queue_capacity\<close>, which then is the bound.
\<close>

theorem queue_never_exceeds_capacity:
  "((\<forall>q. within_capacity (queues st q)) \<longrightarrow> within_capacity (queues (execute run_job acts st) q))
   \<and> (q < next_queue st \<longrightarrow>
        maxsize (queues (execute run_job acts st) q) = maxsize (queues st q))
   \<and> (0 < maxsize Q \<and> qsize Q = maxsize Q \<longrightarrow> put Q item timeout = Inl Full)
   \<and> fst (ThreadPool st0 psize src capacity timeout') = next_pool st0
   \<and> ((src = NoSource \<or> src = IterSource xs)
        \<and> list_all (\<lambda>a. \<not> rewires (next_pool st0) a) acts' \<and> 0 < capacity \<longrightarrow>
        queue_capacity (pools (execute run_job acts' (snd (ThreadPool st0 psize src capacity timeout')))
            (next_pool st0)) = capacity
        \<and> qsize (queues (execute run_job acts' (snd (ThreadPool st0 psize src capacity timeout')))
              (queue (pools (execute run_job acts' (snd (ThreadPool st0 psize src capacity timeout')))
                 (next_pool st0))))
            \<le> queue_capacity (pools (execute run_job acts' (snd (ThreadPool st0 psize src capacity timeout')))
                 (next_pool st0)))
   \<and> maxsize (queues (snd (forward st a b)) (queue (pools (snd (forward st a b)) b)))
       = queue_capacity (pools st a)"
proof -
  have a: "(\<forall>q. within_capacity (queues st q)) \<longrightarrow> within_capacity (queues (execute run_job acts st) q)"
    and a2: "q < next_queue st \<longrightarrow>
        maxsize (queues (execute run_job acts st) q) = maxsize (queues st q)"
    using queue_step_execute [of st run_job acts] unfolding queue_step_def by blast+
  have b: "(src = NoSource \<or> src = IterSource xs)
        \<and> list_all (\<lambda>a. \<not> rewires (next_pool st0) a) acts' \<and> 0 < capacity \<longrightarrow>
        queue_capacity (pools (execute run_job acts' (snd (ThreadPool st0 psize src capacity timeout')))
            (next_pool st0)) = capacity
        \<and> qsize (queues (execute run_job acts' (snd (ThreadPool st0 psize src capacity timeout')))
              (queue (pools (execute run_job acts' (snd (ThreadPool st0 psize src capacity timeout')))
                 (next_pool st0))))
            \<le> queue_capacity (pools (execute run_job acts' (snd (ThreadPool st0 psize src capacity timeout')))
                 (next_pool st0))"
    using constructed_queue_bound [of src xs st0 acts' capacity run_job psize timeout'] by simp
  show ?thesis
    using a a2 b put_on_full [of Q item timeout] ThreadPool_queue(3) [of st0 psize src capacity timeout']
      forward_queue_capacity [of st a b]
    by blast
qed

theorem queue_never_exceeds_capacity_witness:
  "(\<forall>q. within_capacity (queues one_pool q))
   \<and> within_capacity (queues (execute echo [Add 0 (PFun ''f'') [PInt 1] [], Add 0 (PFun ''g'') [] [],
        WorkerStep 0 AtGet, Add 0 (PFun ''h'') [] []] one_pool) 0)
   \<and> 0 < next_queue one_pool
   \<and> maxsize (queues (execute echo [Add 0 (PFun ''f'') [PInt 1] [], Add 0 (PFun ''g'') [] [],
        WorkerStep 0 AtGet, Add 0 (PFun ''h'') [] []] one_pool) 0) = maxsize (queues one_pool 0)
   \<and> (0 < maxsize (queues one_job 0) \<and> qsize (queues one_job 0) = maxsize (queues one_job 0))
   \<and> put (queues one_job 0) (PInt 9) (1 / 2) = Inl Full
   \<and> ((NoSource = NoSource \<or> NoSource = IterSource [])
       \<and> list_all (\<lambda>a. \<not> rewires (next_pool boot) a) [Add 0 (PFun ''f'') [PInt 1] [],
            Add 0 (PFun ''g'') [] [], WorkerStep 0 AtGet, Add 0 (PFun ''h'') [] []]
       \<and> (0::int) < 1)
   \<and> queue_capacity (pools (execute echo [Add 0 (PFun ''f'') [PInt 1] [], Add 0 (PFun ''g'') [] [],
        WorkerStep 0 AtGet, Add 0 (PFun ''h'') [] []] (snd (ThreadPool boot 2 NoSource 1 (1 / 2))))
          (next_pool boot)) = 1
   \<and> qsize (queues (execute echo [Add 0 (PFun ''f'') [PInt 1] [], Add 0 (PFun ''g'') [] [],
        WorkerStep 0 AtGet, Add 0 (PFun ''h'') [] []] (snd (ThreadPool boot 2 NoSource 1 (1 / 2))))
         (queue (pools (execute echo [Add 0 (PFun ''f'') [PInt 1] [], Add 0 (PFun ''g'') [] [],
            WorkerStep 0 AtGet, Add 0 (PFun ''h'') [] []] (snd (ThreadPool boot 2 NoSource 1 (1 / 2))))
              (next_pool boot))))
        \<le> queue_capacity (pools (execute echo [Add 0 (PFun ''f'') [PInt 1] [], Add 0 (PFun ''g'') [] [],
            WorkerStep 0 AtGet, Add 0 (PFun ''h'') [] []] (snd (ThreadPool boot 2 NoSource 1 (1 / 2))))
              (next_pool boot))
   \<and> maxsize (queues (snd (forward three_pools 2 0)) (queue (pools (snd (forward three_pools 2 0)) 0)))
       = queue_capacity (pools three_pools 2)"
proof -
  have n: "0 < next_queue one_pool" by (simp add: one_pool_state)
  have f: "0 < maxsize (queues one_job 0) \<and> qsize (queues one_job 0) = maxsize (queues one_job 0)"
    by (simp add: one_job_state qsize_def)
  have h: "(NoSource = NoSource \<or> NoSource = IterSource [])
       \<and> list_all (\<lambda>a. \<not> rewires (next_pool boot) a) [Add 0 (PFun ''f'') [PInt 1] [],
            Add 0 (PFun ''g'') [] [], WorkerStep 0 AtGet, Add 0 (PFun ''h'') [] []]
       \<and> (0::int) < 1"
    by simp
  show ?thesis
    using all_within_one_pool n f h
      queue_never_exceeds_capacity [of one_pool echo
        "[Add 0 (PFun ''f'') [PInt 1] [], Add 0 (PFun ''g'') [] [],
          WorkerStep 0 AtGet, Add 0 (PFun ''h'') [] []]" 0 "queues one_job 0" "PInt 9" "1 / 2"
        boot 2 NoSource 1 "1 / 2" "[]"
        "[Add 0 (PFun ''f'') [PInt 1] [], Add 0 (PFun ''g'') [] [],
          WorkerStep 0 AtGet, Add 0 (PFun ''h'') [] []]"]
      queue_never_exceeds_capacity [of three_pools echo "[]" 0 "queues one_job 0" "PInt 9" "1 / 2"
        boot 2 NoSource 1 "1 / 2" "[]" "[]" 2 0]
    by blast
qed

text \<open>
  C4 as stated bounds every pool's queue by the \<^verbatim>\<open>queue_capacity\<close> fixed at the pool's
  construction. After \<^verbatim>\<open>pool2.forward(pool0)\<close>, pool 0 was constructed with \<^verbatim>\<open>queue_capacity\<close>
  1, its input queue has capacity 3, and two calls of \<^verbatim>\<open>add\<close> leave two jobs in it.
\<close>

theorem pool_queue_exceeds_queue_capacity:
  "queue_capacity (pools rewired 0) = 1
   \<and> qsize (queues rewired (queue (pools rewired 0))) = 2
   \<and> maxsize (queues rewired (queue (pools rewired 0))) = 3
   \<and> \<not> qsize (queues rewired (queue (pools rewired 0))) \<le> queue_capacity (pools rewired 0)"
  by (simp add: rewired_state qsize_def)

subsection \<open>Helper lemmas on forwarded results\<close>

lemma worker_run_Died:
  "fst (worker_run run_job self ts (evs, Died e, st)) = evs
   \<and> fst (snd (worker_run run_job self ts (evs, Died e, st))) = Died e"
proof (induction ts arbitrary: st)
  case Nil
  show ?case by simp
next
  case (Cons t ts)
  show ?case by (cases t) (simp_all add: Cons.IH)
qed

lemma Finally_Full_step:
  "\<exists>e st'. thread_run run_job self (Finally (Some Full)) st = ([TaskDone], Died e, st')"
  by (simp add: Let_def task_done_def except_Empty_def)

lemma refused_result_not_retried:
  "fst (worker_run run_job self ts (evs, Finally (Some Full), st)) = evs
   \<or> fst (worker_run run_job self ts (evs, Finally (Some Full), st)) = evs @ [TaskDone]"
proof (induction ts arbitrary: st)
  case Nil
  show ?case by simp
next
  case (Cons t ts)
  show ?case
  proof (cases t)
    case Own
    obtain e st' where step: "thread_run run_job self (Finally (Some Full)) st = ([TaskDone], Died e, st')"
      using Finally_Full_step by blast
    then show ?thesis using Own worker_run_Died [of run_job self ts "evs @ [TaskDone]" e st']
      by simp
  next
    case (Others s)
    then show ?thesis using Cons by simp
  qed
qed

lemma Running_forwards:
  "queue_out (pools s a) = Some q \<and> run_job job = Inr v \<longrightarrow>
     thread_run run_job a (Running job) s = ([Executed job], Forwarding v, s)"
  by simp

lemma Forwarding_puts:
  "queue_out (pools s a) = Some q \<longrightarrow>
     thread_run run_job a (Forwarding v) s =
       (if 0 < maxsize (queues s q) \<and> qsize (queues s q) = maxsize (queues s q)
        then ([], Finally (Some Full), s)
        else ([Forwarded v], Finally None,
              set_queue s q ((queues s q)\<lparr>queue_items := queue_items (queues s q) @ [v],
                unfinished_tasks := unfinished_tasks (queues s q) + 1\<rparr>)))"
  by (simp add: put_def)

lemma AtGet_takes_head:
  "queue (pools s b) = q \<and> queue_items (queues s q) = v # rest \<longrightarrow>
     thread_run run_job b AtGet s
       = ([Dequeued v], Running v, set_queue s q ((queues s q)\<lparr>queue_items := rest\<rparr>))"
  by (auto simp: get_def Let_def)

lemma result_path_after_forward:
  "run_job job = Inr v \<longrightarrow>
     worker_run run_job a [Own, Own] ([], Running job, snd (forward st a b))
       = ([Executed job, Forwarded v], Finally None,
          set_queue (snd (forward st a b)) (next_queue st)
            \<lparr>maxsize = queue_capacity (pools st a), queue_items = [v], unfinished_tasks = 1\<rparr>)"
  by (simp add: forward_pools forward_store put_on_new_Queue)

lemma refused_result_state:
  "queues (snd (snd (worker_run echo 0 [Own, Own, Own, Own] ([], AtGet, pipeline_full)))) 3
     = \<lparr>maxsize = 1, queue_items = [PInt 7], unfinished_tasks = 1\<rparr>"
  by (simp add: pipeline_full_state pipeline_state get_def put_def qsize_def task_done_def
      echo_def except_Empty_def set_queue_def Let_def)


lemma pipeline_full_pool_1: "pools pipeline_full 1 = pools pipeline 1"
  by (simp add: pipeline_full_def pipeline_state add_def put_def qsize_def bind_err_def
      set_queue_def Let_def del: One_nat_def)

subsection \<open>C1: what forwarding installs\<close>

text \<open>
  C1, as the code has it: \<^verbatim>\<open>a.forward(b)\<close> returns \<^verbatim>\<open>a\<close>, creates a new, empty queue with \<^verbatim>\<open>a\<close>'s
  \<^verbatim>\<open>queue_capacity\<close>, makes it \<^verbatim>\<open>a\<close>'s output queue and makes it \<^verbatim>\<open>b\<close>'s input queue itself:
  \<^verbatim>\<open>set_source\<close> is given a \<^verbatim>\<open>Queue\<close> and assigns \<^verbatim>\<open>_queue\<close>. \<^verbatim>\<open>b\<close>'s \<^verbatim>\<open>_source\<close> is left as it was, so
  \<^verbatim>\<open>b.run()\<close> starts a consumer thread exactly when \<^verbatim>\<open>b\<close> had an iterator source before.

  A worker of a pool with an output queue, in any state: when the job's call returns a
  value, the worker goes on to put that value on the output queue. The put appends the
  value at the tail of the queue, unless the queue is bounded and at its capacity when
  the wait ends: then the put fails with \<^verbatim>\<open>Full\<close>, the queue is unchanged, and the worker
  only marks the job done and terminates; it forwards nothing later. Right after
  \<^verbatim>\<open>forward\<close> the shared queue is empty, so a returned value is on it two steps later. A
  worker of \<^verbatim>\<open>b\<close> dequeues the head of the shared queue as its next job.
\<close>

theorem forward_shares_queue:
  "fst (forward st a b) = a
   \<and> queues (snd (forward st a b)) (next_queue st) = Queue (queue_capacity (pools st a))
   \<and> next_queue (snd (forward st a b)) = Suc (next_queue st)
   \<and> queue_out (pools (snd (forward st a b)) a) = Some (next_queue st)
   \<and> queue (pools (snd (forward st a b)) b) = next_queue st
   \<and> source (pools (snd (forward st a b)) b) = source (pools st b)
   \<and> (ConsumerThread \<in> set (pool (pools (run (snd (forward st a b)) b now) b)))
       = (source (pools st b) \<noteq> None)
   \<and> (run_job job = Inr v \<longrightarrow>
        worker_run run_job a [Own, Own] ([], Running job, snd (forward st a b))
          = ([Executed job, Forwarded v], Finally None,
             set_queue (snd (forward st a b)) (next_queue st)
               \<lparr>maxsize = queue_capacity (pools st a), queue_items = [v], unfinished_tasks = 1\<rparr>))
   \<and> thread_run run_job b AtGet
         (set_queue (snd (forward st a b)) (next_queue st)
            \<lparr>maxsize = queue_capacity (pools st a), queue_items = [v], unfinished_tasks = 1\<rparr>)
       = ([Dequeued v], Running v,
          set_queue (snd (forward st a b)) (next_queue st)
            \<lparr>maxsize = queue_capacity (pools st a), queue_items = [], unfinished_tasks = 1\<rparr>)
   \<and> (queue_out (pools s a) = Some q \<and> run_job job = Inr v \<longrightarrow>
        thread_run run_job a (Running job) s = ([Executed job], Forwarding v, s))
   \<and> (queue_out (pools s a) = Some q \<longrightarrow>
        thread_run run_job a (Forwarding v) s =
          (if 0 < maxsize (queues s q) \<and> qsize (queues s q) = maxsize (queues s q)
           then ([], Finally (Some Full), s)
           else ([Forwarded v], Finally None,
                 set_queue s q ((queues s q)\<lparr>queue_items := queue_items (queues s q) @ [v],
                   unfinished_tasks := unfinished_tasks (queues s q) + 1\<rparr>))))
   \<and> (fst (worker_run run_job a ts (evs, Finally (Some Full), s)) = evs
        \<or> fst (worker_run run_job a ts (evs, Finally (Some Full), s)) = evs @ [TaskDone])
   \<and> (queue (pools s b) = q \<and> queue_items (queues s q) = v # rest \<longrightarrow>
        thread_run run_job b AtGet s
          = ([Dequeued v], Running v, set_queue s q ((queues s q)\<lparr>queue_items := rest\<rparr>)))"
proof -
  have r: "(ConsumerThread \<in> set (pool (pools (run (snd (forward st a b)) b now) b)))
       = (source (pools st b) \<noteq> None)"
    by (auto simp: run_def build_pool_def start_def set_pool_def Let_def forward_pools
        split: option.splits)
  have g: "thread_run run_job b AtGet
         (set_queue (snd (forward st a b)) (next_queue st)
            \<lparr>maxsize = queue_capacity (pools st a), queue_items = [v], unfinished_tasks = 1\<rparr>)
       = ([Dequeued v], Running v,
          set_queue (snd (forward st a b)) (next_queue st)
            \<lparr>maxsize = queue_capacity (pools st a), queue_items = [], unfinished_tasks = 1\<rparr>)"
    by (simp add: forward_pools set_queue_def get_def Let_def)
  have f: "fst (forward st a b) = a
   \<and> queues (snd (forward st a b)) (next_queue st) = Queue (queue_capacity (pools st a))
   \<and> next_queue (snd (forward st a b)) = Suc (next_queue st)
   \<and> queue_out (pools (snd (forward st a b)) a) = Some (next_queue st)
   \<and> queue (pools (snd (forward st a b)) b) = next_queue st
   \<and> source (pools (snd (forward st a b)) b) = source (pools st b)"
    by (simp add: forward_store forward_pools)
  show ?thesis
    using f r g result_path_after_forward [of run_job job v a st b]
      Running_forwards [of s a q run_job job v] Forwarding_puts [of s a q run_job v]
      refused_result_not_retried [of run_job a ts evs s] AtGet_takes_head [of s b q v rest run_job]
    by blast
qed

theorem forward_shares_queue_witness:
  "echo (PInt 7) = Inr (PInt 7)
   \<and> worker_run echo 0 [Own, Own] ([], Running (PInt 7), snd (forward three_pools 0 1))
       = ([Executed (PInt 7), Forwarded (PInt 7)], Finally None,
          set_queue (snd (forward three_pools 0 1)) (next_queue three_pools)
            \<lparr>maxsize = queue_capacity (pools three_pools 0), queue_items = [PInt 7],
               unfinished_tasks = 1\<rparr>)
   \<and> queue_out (pools (snd (forward three_pools 0 1)) 0) = Some (next_queue three_pools)
   \<and> queue (pools (snd (forward three_pools 0 1)) 1) = next_queue three_pools
   \<and> source (pools (snd (forward three_pools 0 1)) 1) = source (pools three_pools 1)
   \<and> (queue_out (pools pipeline_full 0) = Some 3 \<and> echo (PInt 7) = Inr (PInt 7))
   \<and> thread_run echo 0 (Running (PInt 7)) pipeline_full
       = ([Executed (PInt 7)], Forwarding (PInt 7), pipeline_full)
   \<and> (0 < maxsize (queues pipeline_full 3)
        \<and> qsize (queues pipeline_full 3) = maxsize (queues pipeline_full 3))
   \<and> thread_run echo 0 (Forwarding (PInt 7)) pipeline_full = ([], Finally (Some Full), pipeline_full)
   \<and> (queue (pools pipeline_full 1) = 3 \<and> queue_items (queues pipeline_full 3) = PInt 7 # [])
   \<and> thread_run echo 1 AtGet pipeline_full
       = ([Dequeued (PInt 7)], Running (PInt 7),
          set_queue pipeline_full 3 ((queues pipeline_full 3)\<lparr>queue_items := []\<rparr>))"
proof -
  note T = forward_shares_queue [of three_pools 0 1 0 echo "PInt 7" "PInt 7" pipeline_full 3
      "[Own]" "[]" "[]"]
  have e: "echo (PInt 7) = Inr (PInt 7)" by (simp add: echo_def)
  have o: "queue_out (pools pipeline_full 0) = Some 3"
    by (simp add: pipeline_full_state pipeline_state)
  have f: "0 < maxsize (queues pipeline_full 3)
        \<and> qsize (queues pipeline_full 3) = maxsize (queues pipeline_full 3)"
    by (simp add: pipeline_full_state qsize_def)
  have i: "queue (pools pipeline_full 1) = 3 \<and> queue_items (queues pipeline_full 3) = PInt 7 # []"
    by (simp add: pipeline_full_pool_1 pipeline_full_state pipeline_state del: One_nat_def)
  have p: "thread_run echo 0 (Forwarding (PInt 7)) pipeline_full = ([], Finally (Some Full), pipeline_full)"
  proof -
    have "thread_run echo 0 (Forwarding (PInt 7)) pipeline_full =
          (if 0 < maxsize (queues pipeline_full 3)
                \<and> qsize (queues pipeline_full 3) = maxsize (queues pipeline_full 3)
           then ([], Finally (Some Full), pipeline_full)
           else ([Forwarded (PInt 7)], Finally None,
                 set_queue pipeline_full 3 ((queues pipeline_full 3)
                   \<lparr>queue_items := queue_items (queues pipeline_full 3) @ [PInt 7],
                    unfinished_tasks := unfinished_tasks (queues pipeline_full 3) + 1\<rparr>)))"
      using T o by blast
    then show ?thesis using f by (simp only: if_True simp_thms)
  qed
  show ?thesis
    using T e o f i p by blast
qed

text \<open>
  C1 as stated has the shared queue installed as pool B's Source, with a consumer thread
  of B feeding B's own input queue from it, and every returned value pushed onto the
  shared queue. After \<^verbatim>\<open>pool0.forward(pool1)\<close> pool 1 has no source, its input queue is the
  shared queue 3, \<^verbatim>\<open>run()\<close> gives it its two workers and no consumer, and its worker takes
  the forwarded result 7 straight from the shared queue. And with the shared queue full,
  the value a job of pool 0 returns is not pushed: the worker dies from \<^verbatim>\<open>Full\<close> and the
  queue holds what it held.
\<close>

theorem forward_installs_no_source:
  "source (pools pipeline 1) = None
   \<and> queue_out (pools pipeline 0) = Some 3
   \<and> queue (pools pipeline 1) = 3
   \<and> pool (pools (run pipeline 1 0) 1) = [WorkerThread, WorkerThread]
   \<and> ConsumerThread \<notin> set (pool (pools (run pipeline 1 0) 1))
   \<and> fst (thread_run echo 1 AtGet pipeline_fed) = [Dequeued (PInt 7)]
   \<and> fst (worker_run echo 0 [Own, Own, Own, Own] ([], AtGet, pipeline_full))
       = [Dequeued job_f, Executed job_f, TaskDone]
   \<and> fst (snd (worker_run echo 0 [Own, Own, Own, Own] ([], AtGet, pipeline_full))) = Died Full
   \<and> queue_items (queues (snd (snd (worker_run echo 0 [Own, Own, Own, Own]
        ([], AtGet, pipeline_full)))) 3) = [PInt 7]"
proof -
  have r: "pool (pools (run pipeline 1 0) 1) = [WorkerThread, WorkerThread]"
    by (simp add: run_def build_pool_def start_def set_pool_def Let_def pipeline_state
        numeral_2_eq_2 del: One_nat_def)
  have c: "ConsumerThread \<notin> set (pool (pools (run pipeline 1 0) 1))"
    by (simp only: r) simp
  have g: "fst (thread_run echo 1 AtGet pipeline_fed) = [Dequeued (PInt 7)]"
    by (simp add: pipeline_fed_state pipeline_state get_def Let_def del: One_nat_def)
  have s: "source (pools pipeline 1) = None \<and> queue_out (pools pipeline 0) = Some 3
      \<and> queue (pools pipeline 1) = 3"
    by (simp add: pipeline_state del: One_nat_def)
  have d: "queue_items (queues (snd (snd (worker_run echo 0 [Own, Own, Own, Own]
        ([], AtGet, pipeline_full)))) 3) = [PInt 7]"
    by (simp only: refused_result_state) simp
  show ?thesis
    using r c g s d run_of_refused_result by blast
qed

end
